theory Spec2Isabelle
  imports Main "HOL-Library.Word" "HOL-Library.List_Lexorder"
begin

section \<open>Strings\<close>

text \<open>
  A JavaScript string is a sequence of 16-bit code units. Literals of the source that are
  plain ASCII are written with \<open>js\<close>.
\<close>

type_synonym code_unit = "16 word"
type_synonym jsstring = "code_unit list"

definition js :: "string \<Rightarrow> jsstring" where
  "js s = map (\<lambda>c. of_nat (of_char c)) s"

definition startsWith :: "jsstring \<Rightarrow> jsstring \<Rightarrow> bool" where
  "startsWith s p = (take (length p) s = p)"

section \<open>Numbers\<close>

text \<open>
  A timestamp is the value of \<open>Date.prototype.getTime\<close>: an integer number of milliseconds,
  or \<open>NaN\<close> for a date outside the range of \<open>Date\<close>. Subtraction and \<open>>=\<close> are those of the
  language: a difference with \<open>NaN\<close> is \<open>NaN\<close>, a comparison with \<open>NaN\<close> is false.
\<close>

datatype number = Finite int | NaN

fun number_minus :: "number \<Rightarrow> number \<Rightarrow> number" where
  "number_minus (Finite x) (Finite y) = Finite (x - y)"
| "number_minus x y = NaN"

fun number_ge :: "number \<Rightarrow> number \<Rightarrow> bool" where
  "number_ge (Finite x) (Finite y) = (y \<le> x)"
| "number_ge x y = False"

section \<open>Data model (history-parser.ts)\<close>

record HistoryEntry =
  timestamp :: number
  content :: jsstring
  filePath :: jsstring
  relativePath :: jsstring

record FileHistory =
  originalFilePath :: jsstring
  entries :: "HistoryEntry list"

section \<open>The snapshot store as the reader observes it\<close>

text \<open>
  The reader only looks at the store through calls of \<open>node:fs\<close>. The state of the store is
  the outcome of each of those calls; a call that throws has outcome \<open>None\<close>.

  The value \<open>JSON.parse\<close> returns for the descriptor has the declared type
  \<open>{ resource?: string } | null\<close>; a value that is no object has no \<open>resource\<close>.
  File contents are the strings that \<open>fs.readFileSync\<close> and \<open>fs.writeFileSync\<close> exchange
  under the encoding \<open>utf-8\<close>.
\<close>

record entries_json =
  resource :: "jsstring option"

datatype descriptor =
    Missing                         \<comment> \<open>\<open>fs.existsSync(entriesJsonPath)\<close> is false\<close>
  | Unreadable                      \<comment> \<open>\<open>fs.readFileSync\<close> throws\<close>
  | Unparseable                     \<comment> \<open>\<open>JSON.parse\<close> throws\<close>
  | Parsed "entries_json option"    \<comment> \<open>the parsed value, \<open>None\<close> for \<open>null\<close>\<close>

record snapshot_dir =
  descriptor :: descriptor
  listing :: "jsstring list option"       \<comment> \<open>\<open>fs.readdirSync(historyDirPath)\<close>\<close>
  mtime :: "jsstring \<Rightarrow> number option"        \<comment> \<open>\<open>fs.statSync(filePath).mtime.getTime()\<close>, by file name\<close>
  data :: "jsstring \<Rightarrow> jsstring option"    \<comment> \<open>\<open>fs.readFileSync(filePath, 'utf-8')\<close>, by file name\<close>

record store =
  historyDir :: jsstring
  root_exists :: bool                                  \<comment> \<open>\<open>fs.existsSync(this.historyDir)\<close>\<close>
  root_dirents :: "(jsstring \<times> bool) list option"      \<comment> \<open>name and \<open>isDirectory()\<close> of each dirent\<close>
  subdir :: "jsstring \<Rightarrow> snapshot_dir option"          \<comment> \<open>\<open>None\<close>: \<open>fs.existsSync(historyDirPath)\<close> is false\<close>

text \<open>
  \<open>path.join\<close> of a directory and a name with the POSIX separator. The model does not
  normalise the result; it agrees with \<open>path.join\<close> for a normalised directory and a name
  without separators, as \<open>fs.readdirSync\<close> returns them.
\<close>

definition path_join :: "jsstring \<Rightarrow> jsstring \<Rightarrow> jsstring" where
  "path_join d n = d @ js ''/'' @ n"

section \<open>Snapshot directory reader\<close>

definition historyDirectoryExists :: "store \<Rightarrow> bool" where
  "historyDirectoryExists st = root_exists st"

definition getHistoryDirectories :: "store \<Rightarrow> jsstring list" where
  "getHistoryDirectories st =
     (if \<not> historyDirectoryExists st then []
      else case root_dirents st of
             None \<Rightarrow> []
           | Some ds \<Rightarrow> map fst (filter snd ds))"

definition parseEntriesJson :: "snapshot_dir \<Rightarrow> entries_json option" where
  "parseEntriesJson d =
     (case descriptor d of
        Missing \<Rightarrow> None
      | Unreadable \<Rightarrow> None
      | Unparseable \<Rightarrow> None
      | Parsed v \<Rightarrow> v)"

text \<open>
  \<open>Array.prototype.sort\<close> with a comparison function. \<open>SortCompare\<close> reads a result \<open>NaN\<close> of
  the comparison function as \<open>+0\<close>. The sort is stable: \<open>x\<close> goes before the first \<open>y\<close> with
  \<open>sort_compare cmp x y \<le> 0\<close> that follows it. Where the comparison function is not
  consistent (some result is \<open>NaN\<close>) the language leaves the order to the implementation;
  the model then gives the order of this insertion.
\<close>

definition sort_compare :: "('a \<Rightarrow> 'a \<Rightarrow> number) \<Rightarrow> 'a \<Rightarrow> 'a \<Rightarrow> int" where
  "sort_compare cmp x y = (case cmp x y of NaN \<Rightarrow> 0 | Finite v \<Rightarrow> v)"

fun insert_by :: "('a \<Rightarrow> 'a \<Rightarrow> number) \<Rightarrow> 'a \<Rightarrow> 'a list \<Rightarrow> 'a list" where
  "insert_by cmp x [] = [x]"
| "insert_by cmp x (y # ys) =
     (if sort_compare cmp x y \<le> 0 then x # y # ys else y # insert_by cmp x ys)"

definition sort_by :: "('a \<Rightarrow> 'a \<Rightarrow> number) \<Rightarrow> 'a list \<Rightarrow> 'a list" where
  "sort_by cmp xs = foldr (insert_by cmp) xs []"

text \<open>
  The loop over \<open>historyFiles\<close>. \<open>fs.statSync\<close> stands before the inner \<open>try\<close>, so its
  exception leaves the loop (\<open>None\<close>); an exception of \<open>fs.readFileSync\<close> is caught inside
  and the file is skipped.
\<close>

fun read_entries ::
  "jsstring \<Rightarrow> snapshot_dir \<Rightarrow> jsstring list \<Rightarrow> HistoryEntry list \<Rightarrow> HistoryEntry list option"
where
  "read_entries historyDirPath d [] acc = Some acc"
| "read_entries historyDirPath d (file # files) acc =
     (case mtime d file of
        None \<Rightarrow> None
      | Some t \<Rightarrow>
          (case data d file of
             None \<Rightarrow> read_entries historyDirPath d files acc
           | Some c \<Rightarrow>
               read_entries historyDirPath d files
                 (acc @ [\<lparr>timestamp = t, content = c,
                          filePath = path_join historyDirPath file,
                          relativePath = file\<rparr>])))"

text \<open>
  \<open>!entriesJson || !entriesJson.resource\<close>: \<open>null\<close>, a missing \<open>resource\<close> and the empty
  string are falsy.
\<close>

definition getFileHistory :: "store \<Rightarrow> jsstring \<Rightarrow> FileHistory option" where
  "getFileHistory st hashDir =
     (let historyDirPath = path_join (historyDir st) hashDir in
      case subdir st hashDir of
        None \<Rightarrow> None
      | Some d \<Rightarrow>
          (case parseEntriesJson d of
             None \<Rightarrow> None
           | Some entriesJson \<Rightarrow>
               (case resource entriesJson of
                  None \<Rightarrow> None
                | Some r \<Rightarrow>
                    if r = [] then None
                    else
                      (case listing d of
                         None \<Rightarrow> None
                       | Some names \<Rightarrow>
                           (case read_entries historyDirPath d
                                   (sort (filter (\<lambda>file. file \<noteq> js ''entries.json'') names)) [] of
                              None \<Rightarrow> None
                            | Some es \<Rightarrow>
                                Some \<lparr>originalFilePath = r,
                                      entries = sort_by (\<lambda>a b. number_minus (timestamp b) (timestamp a)) es\<rparr>)))))"


fun collect_histories :: "store \<Rightarrow> jsstring list \<Rightarrow> FileHistory list" where
  "collect_histories st [] = []"
| "collect_histories st (hashDir # hashDirs) =
     (case getFileHistory st hashDir of
        None \<Rightarrow> collect_histories st hashDirs
      | Some history \<Rightarrow> history # collect_histories st hashDirs)"

definition getAllFileHistories :: "store \<Rightarrow> FileHistory list" where
  "getAllFileHistories st = collect_histories st (getHistoryDirectories st)"

record HistoryStats =
  totalFiles :: nat
  totalEntries :: nat
  historyDirExists :: bool
  historyDirPath :: jsstring

definition getHistoryStats :: "store \<Rightarrow> HistoryStats" where
  "getHistoryStats st =
     (let histories = getAllFileHistories st;
          total = foldl (\<lambda>sum history. sum + length (entries history)) 0 histories
      in \<lparr>totalFiles = length histories, totalEntries = total,
          historyDirExists = historyDirectoryExists st, historyDirPath = historyDir st\<rparr>)"

section \<open>URI encoding\<close>

text \<open>
  \<open>encodeURI\<close> and \<open>decodeURIComponent\<close> are functions of the language, not of the
  repository. They are modelled after the abstract operations \<open>Encode\<close> and \<open>Decode\<close> of
  ECMA-262; both throw \<open>URIError\<close>. \<open>FsError\<close> is any exception of \<open>node:fs\<close>.
\<close>

datatype error = URIError | FsError

definition percent :: code_unit where
  "percent = 0x25"

definition is_alnum :: "code_unit \<Rightarrow> bool" where
  "is_alnum c =
     (let u = unat c in (48 \<le> u \<and> u \<le> 57) \<or> (65 \<le> u \<and> u \<le> 90) \<or> (97 \<le> u \<and> u \<le> 122))"

text \<open>
  The characters \<open>encodeURI\<close> leaves as they are: letters, digits, the marks
  \<open>- _ . ! ~ * ' ( )\<close>, the reserved characters \<open>; / ? : @ & = + $ ,\<close> and \<open>#\<close>.
\<close>

definition uri_unescaped :: "code_unit \<Rightarrow> bool" where
  "uri_unescaped c =
     (is_alnum c \<or> c \<in> set (js ''-_.!~*()'') \<or> c = 0x27 \<or> c \<in> set (js '';/?:@&=+$,#''))"

definition is_lead_surrogate :: "code_unit \<Rightarrow> bool" where
  "is_lead_surrogate c = (0xD800 \<le> unat c \<and> unat c \<le> 0xDBFF)"

definition is_trail_surrogate :: "code_unit \<Rightarrow> bool" where
  "is_trail_surrogate c = (0xDC00 \<le> unat c \<and> unat c \<le> 0xDFFF)"

definition surrogate_pair_to_code_point :: "code_unit \<Rightarrow> code_unit \<Rightarrow> nat" where
  "surrogate_pair_to_code_point lead trail =
     (unat lead - 0xD800) * 0x400 + (unat trail - 0xDC00) + 0x10000"

definition utf16_encode_code_point :: "nat \<Rightarrow> jsstring" where
  "utf16_encode_code_point cp =
     (if cp \<le> 0xFFFF then [of_nat cp]
      else [of_nat ((cp - 0x10000) div 0x400 + 0xD800),
            of_nat ((cp - 0x10000) mod 0x400 + 0xDC00)])"

definition utf8_encode :: "nat \<Rightarrow> nat list" where
  "utf8_encode cp =
     (if cp < 0x80 then [cp]
      else if cp < 0x800 then [0xC0 + cp div 64, 0x80 + cp mod 64]
      else if cp < 0x10000 then
        [0xE0 + cp div 4096, 0x80 + (cp div 64) mod 64, 0x80 + cp mod 64]
      else
        [0xF0 + cp div 262144, 0x80 + (cp div 4096) mod 64,
         0x80 + (cp div 64) mod 64, 0x80 + cp mod 64])"

definition is_continuation :: "nat \<Rightarrow> bool" where
  "is_continuation b = (0x80 \<le> b \<and> b < 0xC0)"

text \<open>
  The code point of a well-formed UTF-8 sequence of two to four octets: continuation
  octets in range, no overlong form, no surrogate, nothing above \<open>0x10FFFF\<close>.
\<close>

definition utf8_decode :: "nat list \<Rightarrow> nat option" where
  "utf8_decode octets =
     (case octets of
        [b0, b1] \<Rightarrow>
          (let v = (b0 - 0xC0) * 64 + (b1 - 0x80)
           in if is_continuation b1 \<and> 0x80 \<le> v then Some v else None)
      | [b0, b1, b2] \<Rightarrow>
          (let v = (b0 - 0xE0) * 4096 + (b1 - 0x80) * 64 + (b2 - 0x80)
           in if is_continuation b1 \<and> is_continuation b2 \<and> 0x800 \<le> v
                 \<and> \<not> (0xD800 \<le> v \<and> v \<le> 0xDFFF)
              then Some v else None)
      | [b0, b1, b2, b3] \<Rightarrow>
          (let v = (b0 - 0xF0) * 262144 + (b1 - 0x80) * 4096 + (b2 - 0x80) * 64 + (b3 - 0x80)
           in if is_continuation b1 \<and> is_continuation b2 \<and> is_continuation b3
                 \<and> 0x10000 \<le> v \<and> v \<le> 0x10FFFF
              then Some v else None)
      | _ \<Rightarrow> None)"

definition hex_digit :: "nat \<Rightarrow> code_unit" where
  "hex_digit n = (if n < 10 then of_nat (48 + n) else of_nat (55 + n))"

definition parse_hex_digit :: "code_unit \<Rightarrow> nat option" where
  "parse_hex_digit c =
     (let u = unat c in
      if 48 \<le> u \<and> u \<le> 57 then Some (u - 48)
      else if 65 \<le> u \<and> u \<le> 70 then Some (u - 55)
      else if 97 \<le> u \<and> u \<le> 102 then Some (u - 87)
      else None)"

definition parse_hex_octet :: "code_unit \<Rightarrow> code_unit \<Rightarrow> nat option" where
  "parse_hex_octet h l =
     (case parse_hex_digit h of
        None \<Rightarrow> None
      | Some a \<Rightarrow> (case parse_hex_digit l of None \<Rightarrow> None | Some b \<Rightarrow> Some (16 * a + b)))"

definition percent_octet :: "nat \<Rightarrow> jsstring" where
  "percent_octet b = [percent, hex_digit (b div 16), hex_digit (b mod 16)]"

definition percent_octets :: "nat list \<Rightarrow> jsstring" where
  "percent_octets bs = concat (map percent_octet bs)"

definition prepend :: "jsstring \<Rightarrow> error + jsstring \<Rightarrow> error + jsstring" where
  "prepend s r = (case r of Inl e \<Rightarrow> Inl e | Inr t \<Rightarrow> Inr (s @ t))"

text \<open>
  \<open>Encode\<close>: an unescaped code unit is copied; any other code point is written as the
  percent-escaped octets of its UTF-8 form; an unpaired surrogate throws.
\<close>

fun encodeURI :: "jsstring \<Rightarrow> error + jsstring" where
  "encodeURI [] = Inr []"
| "encodeURI (c # rest) =
     (if uri_unescaped c then prepend [c] (encodeURI rest)
      else if is_trail_surrogate c then Inl URIError
      else if is_lead_surrogate c then
        (case rest of
           [] \<Rightarrow> Inl URIError
         | c2 # rest2 \<Rightarrow>
             if is_trail_surrogate c2
             then prepend (percent_octets (utf8_encode (surrogate_pair_to_code_point c c2)))
                    (encodeURI rest2)
             else Inl URIError)
      else prepend (percent_octets (utf8_encode (unat c))) (encodeURI rest))"

text \<open>The number of leading 1 bits of an octet.\<close>

definition leading_ones :: "nat \<Rightarrow> nat" where
  "leading_ones b =
     (if b < 0x80 then 0 else if b < 0xC0 then 1 else if b < 0xE0 then 2
      else if b < 0xF0 then 3 else if b < 0xF8 then 4
      else if b < 0xFC then 5 else if b < 0xFE then 6 else if b < 0xFF then 7 else 8)"

text \<open>The \<open>n\<close> escapes \<open>%XX\<close> that follow the first octet of a sequence.\<close>

fun continuation_octets :: "nat \<Rightarrow> jsstring \<Rightarrow> nat list option" where
  "continuation_octets 0 s = Some []"
| "continuation_octets (Suc n) (p # h # l # s) =
     (if p \<noteq> percent then None
      else case parse_hex_octet h l of
             None \<Rightarrow> None
           | Some b \<Rightarrow>
               (case continuation_octets n s of None \<Rightarrow> None | Some bs \<Rightarrow> Some (b # bs)))"
| "continuation_octets (Suc n) s = None"

text \<open>\<open>Decode\<close> with an empty set of preserved escapes, as \<open>decodeURIComponent\<close> calls it.\<close>

fun decodeURIComponent :: "jsstring \<Rightarrow> error + jsstring" where
  "decodeURIComponent [] = Inr []"
| "decodeURIComponent (c # rest) =
     (if c \<noteq> percent then prepend [c] (decodeURIComponent rest)
      else
        (case rest of
           h # l # rest2 \<Rightarrow>
             (case parse_hex_octet h l of
                None \<Rightarrow> Inl URIError
              | Some b \<Rightarrow>
                  (let n = leading_ones b in
                   if n = 0 then prepend [of_nat b] (decodeURIComponent rest2)
                   else if n = 1 \<or> 4 < n then Inl URIError
                   else
                     (case continuation_octets (n - 1) rest2 of
                        None \<Rightarrow> Inl URIError
                      | Some bs \<Rightarrow>
                          (case utf8_decode (b # bs) of
                             None \<Rightarrow> Inl URIError
                           | Some v \<Rightarrow>
                               prepend (utf16_encode_code_point v)
                                 (decodeURIComponent (drop (3 * (n - 1)) rest2))))))
         | _ \<Rightarrow> Inl URIError))"

section \<open>Path/URI normalizer (history-parser.ts)\<close>

definition uriToPath :: "jsstring \<Rightarrow> error + jsstring" where
  "uriToPath uri =
     (if startsWith uri (js ''file://'') then decodeURIComponent (drop 7 uri) else Inr uri)"

definition pathToUri :: "jsstring \<Rightarrow> error + jsstring" where
  "pathToUri path =
     (if \<not> startsWith path (js ''file://'')
      then prepend (js ''file://'') (encodeURI path)
      else Inr path)"

text \<open>A string without unpaired surrogates: every code point of it has a UTF-8 form.\<close>

fun well_formed_utf16 :: "jsstring \<Rightarrow> bool" where
  "well_formed_utf16 [] = True"
| "well_formed_utf16 (c # rest) =
     (if is_trail_surrogate c then False
      else if is_lead_surrogate c then
        (case rest of
           [] \<Rightarrow> False
         | c2 # rest2 \<Rightarrow> is_trail_surrogate c2 \<and> well_formed_utf16 rest2)
      else well_formed_utf16 rest)"

section \<open>Paths\<close>

text \<open>
  \<open>path.resolve\<close> and \<open>path.dirname\<close> belong to \<open>node:path\<close>; they are modelled in
  their POSIX form. \<open>cwd\<close> is \<open>process.cwd()\<close>, an absolute path.
\<close>

definition slash :: code_unit where
  "slash = 0x2F"

fun split_on :: "'a \<Rightarrow> 'a list \<Rightarrow> 'a list list" where
  "split_on sep [] = [[]]"
| "split_on sep (c # cs) =
     (if c = sep then [] # split_on sep cs
      else case split_on sep cs of [] \<Rightarrow> [[c]] | seg # segs \<Rightarrow> (c # seg) # segs)"

text \<open>Empty and \<open>.\<close> segments are dropped, \<open>..\<close> removes the segment before it.\<close>

fun normalize_segments :: "jsstring list \<Rightarrow> jsstring list \<Rightarrow> jsstring list" where
  "normalize_segments res [] = res"
| "normalize_segments res (seg # segs) =
     (if seg = [] \<or> seg = js ''.'' then normalize_segments res segs
      else if seg = js ''..'' then normalize_segments (butlast res) segs
      else normalize_segments (res @ [seg]) segs)"

definition join_segments :: "jsstring list \<Rightarrow> jsstring" where
  "join_segments segs =
     (case segs of [] \<Rightarrow> [] | s # ss \<Rightarrow> s @ concat (map (\<lambda>t. slash # t) ss))"

definition resolve :: "jsstring \<Rightarrow> jsstring \<Rightarrow> jsstring" where
  "resolve cwd p =
     (let full = (if p = [] then cwd else if hd p = slash then p else cwd @ [slash] @ p)
      in slash # join_segments (normalize_segments [] (split_on slash full)))"

text \<open>
  \<open>path.dirname\<close>: trailing slashes and the last segment are cut off; the scan stops
  after index 1, so a leading slash is never removed.
\<close>

definition dirname :: "jsstring \<Rightarrow> jsstring" where
  "dirname p =
     (if p = [] then js ''.''
      else
        (let hasRoot = (hd p = slash);
             r = dropWhile (\<lambda>c. c \<noteq> slash) (dropWhile (\<lambda>c. c = slash) (rev (tl p)))
         in if r = [] then (if hasRoot then js ''/'' else js ''.'')
            else if hasRoot \<and> length r = 1 then js ''//''
            else take (length r) p))"

section \<open>History index (history-parser.ts)\<close>

text \<open>
  \<open>String.prototype.toLowerCase\<close> follows the Unicode case mapping; it is a parameter
  (\<open>toLowerCase\<close>) of the lookup. The loop body tests the exact match and then the
  case-insensitive match of one history before it goes to the next.
\<close>

fun find_history ::
  "(jsstring \<Rightarrow> jsstring) \<Rightarrow> jsstring \<Rightarrow> jsstring \<Rightarrow> FileHistory list \<Rightarrow> error + FileHistory option"
where
  "find_history toLowerCase cwd normalizedTarget [] = Inr None"
| "find_history toLowerCase cwd normalizedTarget (history # histories) =
     (case uriToPath (originalFilePath history) of
        Inl e \<Rightarrow> Inl e
      | Inr cleanHistoryPath \<Rightarrow>
          (let normalizedHistory = resolve cwd cleanHistoryPath in
           if normalizedTarget = normalizedHistory then Inr (Some history)
           else if toLowerCase normalizedTarget = toLowerCase normalizedHistory
           then Inr (Some history)
           else find_history toLowerCase cwd normalizedTarget histories))"

definition findHistoryByFilePath ::
  "(jsstring \<Rightarrow> jsstring) \<Rightarrow> jsstring \<Rightarrow> store \<Rightarrow> jsstring \<Rightarrow> error + FileHistory option"
where
  "findHistoryByFilePath toLowerCase cwd st targetFilePath =
     (let histories = getAllFileHistories st in
      case uriToPath targetFilePath of
        Inl e \<Rightarrow> Inl e
      | Inr cleanTargetPath \<Rightarrow>
          find_history toLowerCase cwd (resolve cwd cleanTargetPath) histories)"

text \<open>The case mapping of the ASCII letters, for concrete inputs.\<close>

definition toLowerCase_ascii :: "jsstring \<Rightarrow> jsstring" where
  "toLowerCase_ascii s = map (\<lambda>c. if 65 \<le> unat c \<and> unat c \<le> 90 then c + 32 else c) s"

section \<open>The disk that restore writes to\<close>

text \<open>
  The files outside the snapshot store: a map from path to node. A write to a path in
  \<open>write_denied\<close> throws (no permission, read-only medium); a write that throws changes
  nothing. The snapshot store is read and never written by this program, and restore
  targets are taken to lie outside it.
\<close>

datatype node = File jsstring | Dir

record disk =
  nodes :: "jsstring \<Rightarrow> node option"
  write_denied :: "jsstring \<Rightarrow> bool"

definition existsSync :: "disk \<Rightarrow> jsstring \<Rightarrow> bool" where
  "existsSync d p = (nodes d p \<noteq> None)"

definition writeFileSync :: "disk \<Rightarrow> jsstring \<Rightarrow> jsstring \<Rightarrow> error + disk" where
  "writeFileSync d p c =
     (if write_denied d p then Inl FsError
      else case nodes d (dirname p) of
             Some Dir \<Rightarrow>
               (case nodes d p of
                  Some Dir \<Rightarrow> Inl FsError
                | _ \<Rightarrow> Inr (d\<lparr>nodes := (nodes d)(p \<mapsto> File c)\<rparr>))
           | _ \<Rightarrow> Inl FsError)"

definition copyFileSync :: "disk \<Rightarrow> jsstring \<Rightarrow> jsstring \<Rightarrow> error + disk" where
  "copyFileSync d src dest =
     (case nodes d src of
        Some (File c) \<Rightarrow> writeFileSync d dest c
      | _ \<Rightarrow> Inl FsError)"

text \<open>The directories on the way to \<open>p\<close>, outermost first, \<open>p\<close> last.\<close>

definition dir_chain :: "jsstring \<Rightarrow> jsstring list" where
  "dir_chain p =
     map (\<lambda>i. take i p) (filter (\<lambda>i. p ! i = slash \<and> p ! (i - 1) \<noteq> slash) [1..<length p]) @ [p]"

text \<open>
  \<open>fs.mkdirSync(dir, { recursive: true })\<close>: the flag tells whether it returned; the
  directories made before an exception stay.
\<close>

fun mkdir_chain :: "disk \<Rightarrow> jsstring list \<Rightarrow> bool \<times> disk" where
  "mkdir_chain d [] = (True, d)"
| "mkdir_chain d (q # qs) =
     (case nodes d q of
        Some Dir \<Rightarrow> mkdir_chain d qs
      | Some (File c) \<Rightarrow> (False, d)
      | None \<Rightarrow>
          if write_denied d q then (False, d)
          else mkdir_chain (d\<lparr>nodes := (nodes d)(q \<mapsto> Dir)\<rparr>) qs)"

definition mkdirSync_recursive :: "disk \<Rightarrow> jsstring \<Rightarrow> bool \<times> disk" where
  "mkdirSync_recursive d p = mkdir_chain d (dir_chain p)"

section \<open>Restore operation (index.ts)\<close>

text \<open>The decimal digits of \<open>Date.now()\<close> in a template literal.\<close>

function decimal :: "nat \<Rightarrow> jsstring" where
  "decimal n = (if n < 10 then [of_nat (48 + n)] else decimal (n div 10) @ [of_nat (48 + n mod 10)])"
  by pat_completeness auto
termination
  by (relation "measure (\<lambda>n. n)") auto

text \<open>
  The reply of \<open>restoreFromHistory\<close> is one text; the constructors keep the values its
  template interpolates: the path asked for; the index and \<open>entries.length - 1\<close>; the
  target, the index, the backup path and the entry's timestamp; the same without backup
  (the text that ends in "No backup was created"); the text "Failed to restore file".
\<close>

datatype restore_result =
    NoHistory jsstring
  | InvalidIndex int int
  | RestoredWithBackup jsstring int jsstring number
  | RestoredNoBackup jsstring int number
  | RestoreFailed

text \<open>The \<open>try\<close> block. \<open>now\<close> is the value of \<open>Date.now()\<close>.\<close>

definition restore_try ::
  "nat \<Rightarrow> disk \<Rightarrow> jsstring \<Rightarrow> HistoryEntry \<Rightarrow> int \<Rightarrow> bool \<Rightarrow> restore_result \<times> disk"
where
  "restore_try now d targetPath entry idx createBackup =
     (let dir = dirname targetPath;
          (made, d1) = (if \<not> existsSync d dir then mkdirSync_recursive d dir else (True, d))
      in if \<not> made then (RestoreFailed, d1)
         else if createBackup \<and> existsSync d1 targetPath then
           (let backupPath = targetPath @ js ''.backup.'' @ decimal now in
            case copyFileSync d1 targetPath backupPath of
              Inl e \<Rightarrow> (RestoreFailed, d1)
            | Inr d2 \<Rightarrow>
                (case writeFileSync d2 targetPath (content entry) of
                   Inl e \<Rightarrow> (RestoreFailed, d2)
                 | Inr d3 \<Rightarrow>
                     (RestoredWithBackup targetPath idx backupPath (timestamp entry), d3)))
         else
           (case writeFileSync d1 targetPath (content entry) of
              Inl e \<Rightarrow> (RestoreFailed, d1)
            | Inr d2 \<Rightarrow> (RestoredNoBackup targetPath idx (timestamp entry), d2)))"

text \<open>
  \<open>entryIndex\<close> is an integer. An exception of \<open>uriToPath\<close> is outside the \<open>try\<close> and
  leaves the function (\<open>Inl\<close>).
\<close>

definition restoreFromHistory ::
  "(jsstring \<Rightarrow> jsstring) \<Rightarrow> jsstring \<Rightarrow> nat \<Rightarrow> store \<Rightarrow> disk \<Rightarrow> jsstring \<Rightarrow> int \<Rightarrow> bool
     \<Rightarrow> error + (restore_result \<times> disk)"
where
  "restoreFromHistory toLowerCase cwd now st d path idx createBackup =
     (case findHistoryByFilePath toLowerCase cwd st path of
        Inl e \<Rightarrow> Inl e
      | Inr None \<Rightarrow> Inr (NoHistory path, d)
      | Inr (Some history) \<Rightarrow>
          if idx < 0 \<or> int (length (entries history)) \<le> idx
          then Inr (InvalidIndex idx (int (length (entries history)) - 1), d)
          else
            (let entry = entries history ! nat idx in
             case uriToPath (originalFilePath history) of
               Inl e \<Rightarrow> Inl e
             | Inr originalPath \<Rightarrow>
                 (case uriToPath path of
                    Inl e \<Rightarrow> Inl e
                  | Inr inputPath \<Rightarrow>
                      (let targetPath = (if existsSync d inputPath then inputPath else originalPath)
                       in Inr (restore_try now d targetPath entry idx createBackup)))))"

section \<open>Search engine (index.ts)\<close>

definition backslash :: code_unit where
  "backslash = 0x5C"

text \<open>The class \<open>[.*+?^${}()|[\]\\]\<close> of the source.\<close>

definition escape_class :: "code_unit \<Rightarrow> bool" where
  "escape_class c = (c \<in> set (js ''.*+?^${}()|[]'') \<or> c = backslash)"

text \<open>\<open>searchTerm.replace(/[.*+?^${}()|[\]\\]/g, '\\$&')\<close>\<close>

definition escapeRegExp :: "jsstring \<Rightarrow> jsstring" where
  "escapeRegExp s = concat (map (\<lambda>c. if escape_class c then [backslash, c] else [c]) s)"

text \<open>
  \<open>RegExp\<close> is part of the language. Of its pattern grammar (ECMA-262, \<open>Pattern\<close>) the
  model reads the fragment without operators: a pattern character, which is any character
  that is no \<open>SyntaxCharacter\<close>, and the identity escape of a \<open>SyntaxCharacter\<close>; each
  stands for that one character. Any other pattern has no meaning here (\<open>None\<close>).
\<close>

definition syntax_character :: "code_unit \<Rightarrow> bool" where
  "syntax_character c = (c \<in> set (js ''^$.*+?()[]{}|'') \<or> c = backslash)"

datatype atom = Literal code_unit

fun parse_pattern :: "jsstring \<Rightarrow> atom list option" where
  "parse_pattern [] = Some []"
| "parse_pattern (c # cs) =
     (if c = backslash then
        (case cs of
           [] \<Rightarrow> None
         | e # cs2 \<Rightarrow>
             if syntax_character e
             then (case parse_pattern cs2 of None \<Rightarrow> None | Some as \<Rightarrow> Some (Literal e # as))
             else None)
      else if syntax_character c then None
      else (case parse_pattern cs of None \<Rightarrow> None | Some as \<Rightarrow> Some (Literal c # as)))"

text \<open>
  \<open>Canonicalize\<close>: with the flag \<open>i\<close> both the pattern character and the input character
  go through the simple upper-case mapping of Unicode, the parameter \<open>canon\<close>.
\<close>

definition canonicalize :: "(code_unit \<Rightarrow> code_unit) \<Rightarrow> bool \<Rightarrow> code_unit \<Rightarrow> code_unit" where
  "canonicalize canon ignoreCase c = (if ignoreCase then canon c else c)"

text \<open>The end index of the match of the atoms at index \<open>i\<close> of \<open>s\<close>.\<close>

fun match_atoms ::
  "(code_unit \<Rightarrow> code_unit) \<Rightarrow> bool \<Rightarrow> atom list \<Rightarrow> jsstring \<Rightarrow> nat \<Rightarrow> nat option"
where
  "match_atoms canon ignoreCase [] s i = Some i"
| "match_atoms canon ignoreCase (Literal a # as) s i =
     (if i < length s \<and> canonicalize canon ignoreCase (s ! i) = canonicalize canon ignoreCase a
      then match_atoms canon ignoreCase as s (Suc i)
      else None)"

text \<open>\<open>RegExpBuiltinExec\<close>: the first index from \<open>lastIndex\<close> on where the pattern matches.\<close>

function regexp_exec ::
  "(code_unit \<Rightarrow> code_unit) \<Rightarrow> bool \<Rightarrow> atom list \<Rightarrow> jsstring \<Rightarrow> nat \<Rightarrow> (nat \<times> nat) option"
where
  "regexp_exec canon ignoreCase as s lastIndex =
     (if length s < lastIndex then None
      else case match_atoms canon ignoreCase as s lastIndex of
             Some e \<Rightarrow> Some (lastIndex, e)
           | None \<Rightarrow> regexp_exec canon ignoreCase as s (Suc lastIndex))"
  by pat_completeness auto
termination
  by (relation "measure (\<lambda>(canon, ignoreCase, as, s, lastIndex). Suc (length s) - lastIndex)") auto

declare regexp_exec.simps [simp del]

lemma match_atoms_end: "match_atoms canon ignoreCase as s i = Some e \<Longrightarrow> i \<le> e \<and> e \<le> length s \<or> as = []"
proof (induction as arbitrary: i)
  case Nil
  then show ?case by simp
next
  case (Cons a as)
  obtain c where a: "a = Literal c" by (cases a)
  from Cons.prems a have i: "i < length s" and m: "match_atoms canon ignoreCase as s (Suc i) = Some e"
    by (auto split: if_splits)
  from Cons.IH[OF m] m i show ?case by (cases as) auto
qed

lemma regexp_exec_bounds:
  "regexp_exec canon ignoreCase as s lastIndex = Some (i, e) \<Longrightarrow>
   lastIndex \<le> i \<and> i \<le> e \<and> i \<le> length s"
proof (induction canon ignoreCase as s lastIndex rule: regexp_exec.induct)
  case (1 canon ignoreCase as s lastIndex)
  from "1.prems" have p:
    "(if length s < lastIndex then None
      else case match_atoms canon ignoreCase as s lastIndex of
             Some e \<Rightarrow> Some (lastIndex, e)
           | None \<Rightarrow> regexp_exec canon ignoreCase as s (Suc lastIndex)) = Some (i, e)"
    by (subst (asm) regexp_exec.simps)
  show ?case
  proof (cases "match_atoms canon ignoreCase as s lastIndex")
    case None
    with p "1.IH" show ?thesis
      by (auto split: if_splits)
  next
    case (Some e')
    with p have "i = lastIndex" "e = e'" "lastIndex \<le> length s"
      by (auto split: if_splits)
    with Some match_atoms_end[OF Some] show ?thesis by auto
  qed
qed

text \<open>
  \<open>String.prototype.match\<close> with the flag \<open>g\<close>: every match from index 0 on; after an
  empty match \<open>lastIndex\<close> moves one further. The empty list stands for \<open>null\<close>.
\<close>

function match_all ::
  "(code_unit \<Rightarrow> code_unit) \<Rightarrow> bool \<Rightarrow> atom list \<Rightarrow> jsstring \<Rightarrow> nat \<Rightarrow> (nat \<times> nat) list"
where
  "match_all canon ignoreCase as s lastIndex =
     (case regexp_exec canon ignoreCase as s lastIndex of
        None \<Rightarrow> []
      | Some (i, e) \<Rightarrow>
          (i, e) # match_all canon ignoreCase as s (if e = i then Suc e else e))"
  by pat_completeness auto
termination
proof (relation "measure (\<lambda>(canon, ignoreCase, as, s, lastIndex). Suc (length s) - lastIndex)")
  show "wf (measure (\<lambda>(canon, ignoreCase, as, s, lastIndex). Suc (length s) - lastIndex))"
    by simp
next
  fix canon :: "code_unit \<Rightarrow> code_unit" and ignoreCase as s lastIndex x2 i e
  assume "regexp_exec canon ignoreCase as s lastIndex = Some x2" and "(i, e) = x2"
  then have "regexp_exec canon ignoreCase as s lastIndex = Some (i, e)" by simp
  from regexp_exec_bounds[OF this]
  show "((canon, ignoreCase, as, s, if e = i then Suc e else e),
         (canon, ignoreCase, as, s, lastIndex))
        \<in> measure (\<lambda>(canon, ignoreCase, as, s, lastIndex). Suc (length s) - lastIndex)"
    by auto
qed

declare match_all.simps [simp del]

text \<open>
  One record of \<open>results\<close>. The field \<open>file\<close> of the source is \<open>resultFile\<close> here. The
  field \<open>timestamp\<close> of the source is the localized text of the entry's timestamp; the
  record keeps the timestamp itself, as \<open>entryTimestamp\<close>.
\<close>

record search_result =
  resultFile :: jsstring
  entryIndex :: nat
  entryTimestamp :: number
  matchCount :: nat

text \<open>\<open>history.entries.forEach((entry, index) => ...)\<close>\<close>

fun search_entries ::
  "(code_unit \<Rightarrow> code_unit) \<Rightarrow> bool \<Rightarrow> atom list \<Rightarrow> jsstring \<Rightarrow> nat \<Rightarrow> HistoryEntry list
     \<Rightarrow> search_result list"
where
  "search_entries canon ignoreCase searchRegex f index [] = []"
| "search_entries canon ignoreCase searchRegex f index (entry # es) =
     (let matches = match_all canon ignoreCase searchRegex (content entry) 0 in
      (if matches \<noteq> []
       then [\<lparr>resultFile = f, entryIndex = index, entryTimestamp = timestamp entry,
              matchCount = length matches\<rparr>]
       else [])
      @ search_entries canon ignoreCase searchRegex f (Suc index) es)"

text \<open>The array \<open>results\<close> that the reply of \<open>searchHistoryContent\<close> is printed from.\<close>

definition searchHistoryContent ::
  "(code_unit \<Rightarrow> code_unit) \<Rightarrow> store \<Rightarrow> jsstring \<Rightarrow> bool \<Rightarrow> search_result list option"
where
  "searchHistoryContent canon st searchTerm caseSensitive =
     (let histories = getAllFileHistories st in
      case parse_pattern (escapeRegExp searchTerm) of
        None \<Rightarrow> None
      | Some searchRegex \<Rightarrow>
          Some (concat (map (\<lambda>history.
                  search_entries canon (\<not> caseSensitive) searchRegex
                    (originalFilePath history) 0 (entries history)) histories)))"

text \<open>The upper-case mapping of the ASCII letters, for concrete inputs.\<close>

definition canon_ascii :: "code_unit \<Rightarrow> code_unit" where
  "canon_ascii c = (if 97 \<le> unat c \<and> unat c \<le> 122 then c - 32 else c)"

subsection \<open>Literal substring search, as the specification words it\<close>

text \<open>
  \<open>term_at\<close>: the term stands at the front of \<open>s\<close>, compared code unit by code unit
  (through \<open>canon\<close> when case is ignored). \<open>contains_term\<close>: it stands at some position.
  \<open>count_occurrences\<close>: the occurrences from left to right, each starting after the end of
  the one before; the empty term occurs once at each position.
\<close>

definition term_at :: "(code_unit \<Rightarrow> code_unit) \<Rightarrow> bool \<Rightarrow> jsstring \<Rightarrow> jsstring \<Rightarrow> bool" where
  "term_at canon ignoreCase t s =
     (length t \<le> length s
      \<and> map (canonicalize canon ignoreCase) (take (length t) s) = map (canonicalize canon ignoreCase) t)"

fun contains_term :: "(code_unit \<Rightarrow> code_unit) \<Rightarrow> bool \<Rightarrow> jsstring \<Rightarrow> jsstring \<Rightarrow> bool" where
  "contains_term canon ignoreCase t [] = term_at canon ignoreCase t []"
| "contains_term canon ignoreCase t (c # cs) =
     (term_at canon ignoreCase t (c # cs) \<or> contains_term canon ignoreCase t cs)"

function count_occurrences ::
  "(code_unit \<Rightarrow> code_unit) \<Rightarrow> bool \<Rightarrow> jsstring \<Rightarrow> jsstring \<Rightarrow> nat"
where
  "count_occurrences canon ignoreCase t [] = (if t = [] then 1 else 0)"
| "count_occurrences canon ignoreCase t (c # cs) =
     (if term_at canon ignoreCase t (c # cs)
      then Suc (count_occurrences canon ignoreCase t (drop (length t - 1) cs))
      else count_occurrences canon ignoreCase t cs)"
  by pat_completeness auto
termination
  by (relation "measure (\<lambda>(canon, ignoreCase, t, s). length s)") auto

section \<open>Concrete stores and disks\<close>

text \<open>
  One tracked file \<open>/x/y.txt\<close> with two snapshots: \<open>a\<close>, the older, and \<open>b\<close>, the newer.
\<close>

definition example_dir :: snapshot_dir where
  "example_dir =
     \<lparr>descriptor = Parsed (Some \<lparr>resource = Some (js ''/x/y.txt'')\<rparr>),
      listing = Some [js ''b'', js ''entries.json'', js ''a''],
      mtime = [js ''a'' \<mapsto> Finite 5, js ''b'' \<mapsto> Finite 9],
      data = [js ''a'' \<mapsto> js ''old foo'', js ''b'' \<mapsto> js ''new Foo'']\<rparr>"

definition example_store :: store where
  "example_store =
     \<lparr>historyDir = js ''/h'', root_exists = True,
      root_dirents = Some [(js ''d1'', True)],
      subdir = [js ''d1'' \<mapsto> example_dir]\<rparr>"

text \<open>The same store after \<open>a\<close> became a name that \<open>fs.statSync\<close> fails on.\<close>

definition stat_failure_store :: store where
  "stat_failure_store =
     example_store\<lparr>subdir := [js ''d1'' \<mapsto> example_dir\<lparr>mtime := [js ''b'' \<mapsto> Finite 9]\<rparr>]\<rparr>"




text \<open>Two tracked files whose paths differ in case only, \<open>/X/y.txt\<close> listed first.\<close>

definition tracked_dir :: "jsstring \<Rightarrow> snapshot_dir" where
  "tracked_dir r =
     \<lparr>descriptor = Parsed (Some \<lparr>resource = Some r\<rparr>),
      listing = Some [js ''entries.json''],
      mtime = Map.empty, data = Map.empty\<rparr>"

definition case_store :: store where
  "case_store =
     \<lparr>historyDir = js ''/h'', root_exists = True,
      root_dirents = Some [(js ''d1'', True), (js ''d2'', True)],
      subdir = [js ''d1'' \<mapsto> tracked_dir (js ''/X/y.txt''),
                js ''d2'' \<mapsto> tracked_dir (js ''/x/y.txt'')]\<rparr>"

text \<open>A disk where \<open>/x/y.txt\<close> is a file, one where it is absent, and one where \<open>/x\<close> is a file.\<close>

definition example_disk :: disk where
  "example_disk =
     \<lparr>nodes = [js ''/'' \<mapsto> Dir, js ''/x'' \<mapsto> Dir, js ''/x/y.txt'' \<mapsto> File (js ''current'')],
      write_denied = (\<lambda>p. False)\<rparr>"

definition absent_disk :: disk where
  "absent_disk =
     \<lparr>nodes = [js ''/'' \<mapsto> Dir, js ''/x'' \<mapsto> Dir],
      write_denied = (\<lambda>p. False)\<rparr>"

definition blocked_disk :: disk where
  "blocked_disk =
     \<lparr>nodes = [js ''/'' \<mapsto> Dir, js ''/x'' \<mapsto> File (js ''plain'')],
      write_denied = (\<lambda>p. False)\<rparr>"

text \<open>The disk after a restore of entry 0 at clock reading 1000, and after a second one of entry 1.\<close>

definition disk_after_first :: disk where
  "disk_after_first =
     example_disk\<lparr>nodes := (nodes example_disk)
        (js ''/x/y.txt.backup.1000'' \<mapsto> File (js ''current''),
         js ''/x/y.txt'' \<mapsto> File (js ''new Foo''))\<rparr>"

definition disk_after_second :: disk where
  "disk_after_second =
     disk_after_first\<lparr>nodes := (nodes disk_after_first)
        (js ''/x/y.txt.backup.1000'' \<mapsto> File (js ''new Foo''),
         js ''/x/y.txt'' \<mapsto> File (js ''old foo''))\<rparr>"

text \<open>A disk where a directory stands at the path \<open>/x/y.txt\<close>.\<close>

definition directory_disk :: disk where
  "directory_disk =
     \<lparr>nodes = [js ''/'' \<mapsto> Dir, js ''/x'' \<mapsto> Dir, js ''/x/y.txt'' \<mapsto> Dir],
      write_denied = (\<lambda>p. False)\<rparr>"

text \<open>
  One tracked file with three snapshots; the modification time of \<open>b\<close> lies outside the
  range of \<open>Date\<close>, so its \<open>getTime()\<close> is \<open>NaN\<close>.
\<close>

definition nan_dir :: snapshot_dir where
  "nan_dir =
     \<lparr>descriptor = Parsed (Some \<lparr>resource = Some (js ''/x/y.txt'')\<rparr>),
      listing = Some [js ''a'', js ''b'', js ''c'', js ''entries.json''],
      mtime = [js ''a'' \<mapsto> Finite 5, js ''b'' \<mapsto> NaN, js ''c'' \<mapsto> Finite 9],
      data = [js ''a'' \<mapsto> js ''one'', js ''b'' \<mapsto> js ''two'', js ''c'' \<mapsto> js ''three'']\<rparr>"

definition nan_store :: store where
  "nan_store =
     \<lparr>historyDir = js ''/h'', root_exists = True,
      root_dirents = Some [(js ''d1'', True)],
      subdir = [js ''d1'' \<mapsto> nan_dir]\<rparr>"

text \<open>A disk with the root directory only.\<close>

definition root_disk :: disk where
  "root_disk = \<lparr>nodes = [js ''/'' \<mapsto> Dir], write_denied = (\<lambda>p. False)\<rparr>"

section \<open>Statistics\<close>

lemma foldl_entries_sum:
  "foldl (\<lambda>sum history. sum + length (entries history)) n hs
     = n + sum_list (map (\<lambda>h. length (entries h)) hs)"
  by (induction hs arbitrary: n) simp_all

text \<open>
  C8: for every store state, \<open>getHistoryStats\<close> reports as \<open>totalEntries\<close> the sum of
  \<open>entries.length\<close> over the histories that \<open>getAllFileHistories\<close> returns, and as
  \<open>totalFiles\<close> the number of those histories.
\<close>

theorem getHistoryStats_totals:
  "totalEntries (getHistoryStats st)
     = sum_list (map (\<lambda>h. length (entries h)) (getAllFileHistories st))
   \<and> totalFiles (getHistoryStats st) = length (getAllFileHistories st)"
  by (simp add: getHistoryStats_def Let_def foldl_entries_sum)

section \<open>Properties of the snapshot directory reader\<close>

lemma set_insert_by: "set (insert_by cmp x ys) = insert x (set ys)"
  by (induction ys) auto

lemma set_sort_by: "set (sort_by cmp es) = set es"
  unfolding sort_by_def by (induction es) (simp_all add: set_insert_by)

lemma not_NaN: "n \<noteq> NaN \<Longrightarrow> \<exists>v. n = Finite v"
  by (cases n) simp_all

lemma sort_compare_timestamps:
  "timestamp x = Finite v \<Longrightarrow> timestamp y = Finite w \<Longrightarrow>
   sort_compare (\<lambda>a b. number_minus (timestamp b) (timestamp a)) x y = w - v"
  by (simp add: sort_compare_def)

lemma sorted_insert_by:
  assumes "timestamp x \<noteq> NaN" and "\<forall>e \<in> set ys. timestamp e \<noteq> NaN"
    and "sorted_wrt (\<lambda>a b. number_ge (timestamp a) (timestamp b)) ys"
  shows "sorted_wrt (\<lambda>a b. number_ge (timestamp a) (timestamp b))
           (insert_by (\<lambda>a b. number_minus (timestamp b) (timestamp a)) x ys)"
  using assms
proof (induction ys)
  case Nil
  then show ?case by simp
next
  case (Cons y ys)
  from Cons.prems(1) obtain v where v: "timestamp x = Finite v"
    using not_NaN by blast
  from Cons.prems(2) obtain w where w: "timestamp y = Finite w"
    using not_NaN by fastforce
  have c: "sort_compare (\<lambda>a b. number_minus (timestamp b) (timestamp a)) x y = w - v"
    using v w by (rule sort_compare_timestamps)
  show ?case
  proof (cases "w \<le> v")
    case True
    have "number_ge (timestamp x) (timestamp z)" if z: "z \<in> set ys" for z
    proof -
      from Cons.prems(2) z obtain u where u: "timestamp z = Finite u"
        using not_NaN by fastforce
      from Cons.prems(3) z have "number_ge (timestamp y) (timestamp z)" by simp
      with u w True show ?thesis by (simp add: v)
    qed
    with True Cons.prems(3) show ?thesis
      by (simp add: c v w)
  next
    case False
    have i: "sorted_wrt (\<lambda>a b. number_ge (timestamp a) (timestamp b))
               (insert_by (\<lambda>a b. number_minus (timestamp b) (timestamp a)) x ys)"
      using Cons.IH Cons.prems by simp
    have "number_ge (timestamp y) (timestamp x)"
      using False by (simp add: v w)
    with False i Cons.prems(3) show ?thesis
      by (auto simp: c set_insert_by)
  qed
qed

lemma sorted_sort_by:
  "\<forall>e \<in> set es. timestamp e \<noteq> NaN \<Longrightarrow>
   sorted_wrt (\<lambda>a b. number_ge (timestamp a) (timestamp b))
     (sort_by (\<lambda>a b. number_minus (timestamp b) (timestamp a)) es)"
proof (induction es)
  case Nil
  then show ?case by (simp add: sort_by_def)
next
  case (Cons e es)
  then have "sorted_wrt (\<lambda>a b. number_ge (timestamp a) (timestamp b))
               (sort_by (\<lambda>a b. number_minus (timestamp b) (timestamp a)) es)"
    by simp
  moreover have "\<forall>e \<in> set (sort_by (\<lambda>a b. number_minus (timestamp b) (timestamp a)) es).
                   timestamp e \<noteq> NaN"
    using Cons.prems by (simp add: set_sort_by)
  moreover have "timestamp e \<noteq> NaN" using Cons.prems by simp
  ultimately have "sorted_wrt (\<lambda>a b. number_ge (timestamp a) (timestamp b))
               (insert_by (\<lambda>a b. number_minus (timestamp b) (timestamp a)) e
                  (sort_by (\<lambda>a b. number_minus (timestamp b) (timestamp a)) es))"
    by (intro sorted_insert_by)
  then show ?case by (simp add: sort_by_def)
qed

lemma getFileHistory_Some_entries:
  "getFileHistory st hashDir = Some h \<Longrightarrow>
   \<exists>es. entries h = sort_by (\<lambda>a b. number_minus (timestamp b) (timestamp a)) es"
  by (auto simp: getFileHistory_def Let_def split: option.splits if_splits)

lemma collect_histories_mem:
  "h \<in> set (collect_histories st ds) \<Longrightarrow> \<exists>hashDir \<in> set ds. getFileHistory st hashDir = Some h"
  by (induction ds) (auto split: option.splits)


lemma getAllFileHistories_mem:
  "h \<in> set (getAllFileHistories st) \<Longrightarrow> \<exists>hashDir. getFileHistory st hashDir = Some h"
  unfolding getAllFileHistories_def by (blast dest: collect_histories_mem)

text \<open>
  C3 as stated fails where a snapshot file has a modification time outside the range of
  \<open>Date\<close>: its timestamp is \<open>NaN\<close>, every comparison with it is false, and here the sort even
  leaves the entry of timestamp 5 before the entry of timestamp 9.
\<close>

theorem getFileHistory_nan_timestamp:
  "getFileHistory nan_store (js ''d1'') =
     Some \<lparr>originalFilePath = js ''/x/y.txt'',
           entries = [\<lparr>timestamp = Finite 5, content = js ''one'',
                        filePath = js ''/h/d1/a'', relativePath = js ''a''\<rparr>,
                      \<lparr>timestamp = NaN, content = js ''two'',
                        filePath = js ''/h/d1/b'', relativePath = js ''b''\<rparr>,
                      \<lparr>timestamp = Finite 9, content = js ''three'',
                        filePath = js ''/h/d1/c'', relativePath = js ''c''\<rparr>]\<rparr>
   \<and> \<not> number_ge (Finite 5) NaN
   \<and> \<not> number_ge NaN (Finite 9)
   \<and> \<not> number_ge (Finite 5) (Finite 9)"
  by (simp add: getFileHistory_def nan_store_def nan_dir_def js_def path_join_def
      parseEntriesJson_def sort_by_def sort_compare_def)

text \<open>
  C3, amended: in every history that \<open>getFileHistory\<close> returns, and so in every element of
  \<open>getAllFileHistories\<close>, whose entries all have a timestamp that is not \<open>NaN\<close>, the entries
  are ordered by timestamp, newest first: no entry is newer than one before it, and
  \<open>entries[i].timestamp >= entries[i+1].timestamp\<close> for all adjacent indices. The order of
  the file names plays no part.
\<close>

theorem getFileHistory_entries_sorted:
  assumes "getFileHistory st hashDir = Some h \<or> h \<in> set (getAllFileHistories st)"
    and "\<forall>e \<in> set (entries h). timestamp e \<noteq> NaN"
  shows "sorted_wrt (\<lambda>a b. number_ge (timestamp a) (timestamp b)) (entries h)
         \<and> (\<forall>i. Suc i < length (entries h) \<longrightarrow>
                number_ge (timestamp (entries h ! i)) (timestamp (entries h ! Suc i)))"
proof -
  from assms(1) obtain hd where "getFileHistory st hd = Some h"
    using getAllFileHistories_mem by blast
  then obtain es where
    es: "entries h = sort_by (\<lambda>a b. number_minus (timestamp b) (timestamp a)) es"
    using getFileHistory_Some_entries by blast
  from assms(2) have "\<forall>e \<in> set es. timestamp e \<noteq> NaN"
    by (simp add: es set_sort_by)
  then have s: "sorted_wrt (\<lambda>a b. number_ge (timestamp a) (timestamp b)) (entries h)"
    unfolding es by (rule sorted_sort_by)
  have "number_ge (timestamp (entries h ! i)) (timestamp (entries h ! Suc i))"
    if "Suc i < length (entries h)" for i
    using s that by (simp add: sorted_wrt_iff_nth_less)
  with s show ?thesis by blast
qed

lemma example_history:
  "getFileHistory example_store (js ''d1'') =
     Some \<lparr>originalFilePath = js ''/x/y.txt'',
           entries = [\<lparr>timestamp = Finite 9, content = js ''new Foo'',
                        filePath = js ''/h/d1/b'', relativePath = js ''b''\<rparr>,
                      \<lparr>timestamp = Finite 5, content = js ''old foo'',
                        filePath = js ''/h/d1/a'', relativePath = js ''a''\<rparr>]\<rparr>"
  by (simp add: getFileHistory_def example_store_def example_dir_def js_def path_join_def
      parseEntriesJson_def sort_by_def sort_compare_def)

theorem getFileHistory_entries_sorted_witness:
  "getFileHistory example_store (js ''d1'') =
     Some \<lparr>originalFilePath = js ''/x/y.txt'',
           entries = [\<lparr>timestamp = Finite 9, content = js ''new Foo'',
                        filePath = js ''/h/d1/b'', relativePath = js ''b''\<rparr>,
                      \<lparr>timestamp = Finite 5, content = js ''old foo'',
                        filePath = js ''/h/d1/a'', relativePath = js ''a''\<rparr>]\<rparr>
   \<and> sorted_wrt (\<lambda>a b. number_ge (timestamp a) (timestamp b))
         [\<lparr>timestamp = Finite 9, content = js ''new Foo'',
            filePath = js ''/h/d1/b'', relativePath = js ''b''\<rparr>,
          \<lparr>timestamp = Finite 5, content = js ''old foo'',
            filePath = js ''/h/d1/a'', relativePath = js ''a''\<rparr>]"
proof -
  let ?h = "\<lparr>originalFilePath = js ''/x/y.txt'',
              entries = [\<lparr>timestamp = Finite 9, content = js ''new Foo'',
                           filePath = js ''/h/d1/b'', relativePath = js ''b''\<rparr>,
                         \<lparr>timestamp = Finite 5, content = js ''old foo'',
                           filePath = js ''/h/d1/a'', relativePath = js ''a''\<rparr>]\<rparr>"
  have f: "\<forall>e \<in> set (entries ?h). timestamp e \<noteq> NaN" by simp
  from getFileHistory_entries_sorted[OF disjI1[OF example_history] f] example_history
  show ?thesis by simp
qed

text \<open>
  C2, at a directory with valid metadata whose listing names \<open>a\<close> and \<open>b\<close>, where
  \<open>fs.statSync\<close> fails on \<open>a\<close> and \<open>b\<close> is readable: \<open>getFileHistory\<close> returns \<open>null\<close>; the
  entry of \<open>b\<close> is lost with the directory.
\<close>

theorem getFileHistory_stat_failure:
  "getFileHistory stat_failure_store (js ''d1'') = None"
  by (simp add: getFileHistory_def stat_failure_store_def example_store_def example_dir_def
      js_def path_join_def parseEntriesJson_def)



lemma read_entries_skips:
  "mtime d f \<noteq> None \<Longrightarrow> data d f = None \<Longrightarrow>
   read_entries p d (f # files) acc = read_entries p d files acc"
  by (auto split: option.splits)





section \<open>Properties of the path/URI normalizer\<close>

lemma unat_of_nat16: "n < 65536 \<Longrightarrow> unat (of_nat n :: 16 word) = n"
  by (simp add: unat_of_nat)

lemma unat_hex_digit: "n < 16 \<Longrightarrow> unat (hex_digit n) = (if n < 10 then 48 + n else 55 + n)"
  unfolding hex_digit_def using unat_of_nat16[of "48 + n"] unat_of_nat16[of "55 + n"]
  by (simp del: of_nat_add)

lemma parse_hex_digit_hex_digit: "n < 16 \<Longrightarrow> parse_hex_digit (hex_digit n) = Some n"
  by (simp add: parse_hex_digit_def Let_def unat_hex_digit)

lemma parse_percent_octet:
  "b < 256 \<Longrightarrow> parse_hex_octet (hex_digit (b div 16)) (hex_digit (b mod 16)) = Some b"
  by (simp add: parse_hex_octet_def parse_hex_digit_hex_digit)

lemma continuation_percent_octet:
  "b < 256 \<Longrightarrow>
   continuation_octets (Suc n) (percent_octet b @ s)
     = (case continuation_octets n s of None \<Rightarrow> None | Some bs \<Rightarrow> Some (b # bs))"
  by (simp add: percent_octet_def parse_percent_octet)

lemma decode_percent_octet:
  "b < 256 \<Longrightarrow>
   decodeURIComponent (percent_octet b @ s)
     = (let n = leading_ones b in
        if n = 0 then prepend [of_nat b] (decodeURIComponent s)
        else if n = 1 \<or> 4 < n then Inl URIError
        else
          (case continuation_octets (n - 1) s of
             None \<Rightarrow> Inl URIError
           | Some bs \<Rightarrow>
               (case utf8_decode (b # bs) of
                  None \<Rightarrow> Inl URIError
                | Some v \<Rightarrow>
                    prepend (utf16_encode_code_point v)
                      (decodeURIComponent (drop (3 * (n - 1)) s)))))"
  by (simp add: percent_octet_def parse_percent_octet)

lemma utf8_arith2: "(cp::nat) div 64 * 64 + cp mod 64 = cp"
  by simp

lemma utf8_arith3:
  "(cp::nat) div 4096 * 4096 + cp div 64 mod 64 * 64 + cp mod 64 = cp"
proof -
  define q where "q = cp div 64"
  define r where "r = cp mod 64"
  define q1 where "q1 = q div 64"
  define r1 where "r1 = q mod 64"
  have a: "cp = q * 64 + r" by (simp add: q_def r_def)
  have b: "q = q1 * 64 + r1" by (simp add: q1_def r1_def)
  have c: "cp div 4096 = q1"
    unfolding q1_def q_def by (simp add: div_mult2_eq[symmetric])
  have "q1 * 4096 + r1 * 64 + r = cp"
    unfolding a b by simp
  then show ?thesis
    unfolding c by (simp add: r1_def r_def q_def)
qed

lemma utf8_arith4:
  "(cp::nat) div 262144 * 262144 + cp div 4096 mod 64 * 4096 + cp div 64 mod 64 * 64 + cp mod 64 = cp"
proof -
  define q where "q = cp div 64"
  define r where "r = cp mod 64"
  define q1 where "q1 = q div 64"
  define r1 where "r1 = q mod 64"
  define q2 where "q2 = q1 div 64"
  define r2 where "r2 = q1 mod 64"
  have a: "cp = q * 64 + r" by (simp add: q_def r_def)
  have b: "q = q1 * 64 + r1" by (simp add: q1_def r1_def)
  have b2: "q1 = q2 * 64 + r2" by (simp add: q2_def r2_def)
  have c: "cp div 4096 = q1"
    unfolding q1_def q_def by (simp add: div_mult2_eq[symmetric])
  have d: "cp div 262144 = q2"
    unfolding q2_def q1_def q_def by (simp add: div_mult2_eq[symmetric])
  have "q2 * 262144 + r2 * 4096 + r1 * 64 + r = cp"
    unfolding a b b2 by simp
  then show ?thesis
    unfolding c d by (simp add: r2_def r1_def r_def q_def)
qed

lemma length_percent_octet: "length (percent_octet b) = 3"
  by (simp add: percent_octet_def)

lemma decode_utf8_1:
  assumes "cp < 0x80"
  shows "decodeURIComponent (percent_octets (utf8_encode cp) @ s)
         = prepend (utf16_encode_code_point cp) (decodeURIComponent s)"
  using assms
  by (simp add: utf8_encode_def percent_octets_def decode_percent_octet leading_ones_def
      utf16_encode_code_point_def)

lemma decode_utf8_2:
  assumes "0x80 \<le> cp" "cp < 0x800"
  shows "decodeURIComponent (percent_octets (utf8_encode cp) @ s)
         = prepend (utf16_encode_code_point cp) (decodeURIComponent s)"
proof -
  have b0: "0xC0 + cp div 64 < 256" "0xC0 + cp div 64 < 0xE0" using assms by simp_all
  have b1: "0x80 + cp mod 64 < 256" by simp
  have l: "leading_ones (0xC0 + cp div 64) = 2"
    using b0 by (simp add: leading_ones_def)
  have d: "utf8_decode [0xC0 + cp div 64, 0x80 + cp mod 64] = Some cp"
    using assms by (simp add: utf8_decode_def is_continuation_def)
  show ?thesis
    using assms b0 b1
    by (simp add: utf8_encode_def percent_octets_def decode_percent_octet l d
        continuation_percent_octet[where n=0, simplified] length_percent_octet)
qed


lemma decode_utf8_3:
  assumes "0x800 \<le> cp" "cp < 0x10000" "\<not> (0xD800 \<le> cp \<and> cp \<le> 0xDFFF)"
  shows "decodeURIComponent (percent_octets (utf8_encode cp) @ s)
         = prepend (utf16_encode_code_point cp) (decodeURIComponent s)"
proof -
  have b0: "0xE0 + cp div 4096 < 256" "0xE0 + cp div 4096 < 0xF0" using assms by simp_all
  have b1: "0x80 + cp div 64 mod 64 < 256" by simp
  have b2: "0x80 + cp mod 64 < 256" by simp
  have l: "leading_ones (0xE0 + cp div 4096) = 3"
    using b0 by (simp add: leading_ones_def)
  have d: "utf8_decode [0xE0 + cp div 4096, 0x80 + cp div 64 mod 64, 0x80 + cp mod 64] = Some cp"
    using assms by (simp add: utf8_decode_def is_continuation_def utf8_arith3)
  have c: "continuation_octets 2
             (percent_octet (0x80 + cp div 64 mod 64) @ percent_octet (0x80 + cp mod 64) @ s)
           = Some [0x80 + cp div 64 mod 64, 0x80 + cp mod 64]"
    using b1 b2 by (simp add: numeral_2_eq_2 continuation_percent_octet)
  show ?thesis
    using assms b0 b1 b2
    by (simp add: utf8_encode_def percent_octets_def decode_percent_octet l d c
        length_percent_octet)
qed

lemma decode_utf8_4:
  assumes "0x10000 \<le> cp" "cp \<le> 0x10FFFF"
  shows "decodeURIComponent (percent_octets (utf8_encode cp) @ s)
         = prepend (utf16_encode_code_point cp) (decodeURIComponent s)"
proof -
  have b0: "0xF0 + cp div 262144 < 256" "0xF0 + cp div 262144 < 0xF8" using assms by simp_all
  have b1: "0x80 + cp div 4096 mod 64 < 256" by simp
  have b2: "0x80 + cp div 64 mod 64 < 256" by simp
  have b3: "0x80 + cp mod 64 < 256" by simp
  have l: "leading_ones (0xF0 + cp div 262144) = 4"
    using b0 by (simp add: leading_ones_def)
  have d: "utf8_decode [0xF0 + cp div 262144, 0x80 + cp div 4096 mod 64,
                        0x80 + cp div 64 mod 64, 0x80 + cp mod 64] = Some cp"
    using assms by (simp add: utf8_decode_def is_continuation_def utf8_arith4)
  have c: "continuation_octets 3
             (percent_octet (0x80 + cp div 4096 mod 64) @ percent_octet (0x80 + cp div 64 mod 64)
                @ percent_octet (0x80 + cp mod 64) @ s)
           = Some [0x80 + cp div 4096 mod 64, 0x80 + cp div 64 mod 64, 0x80 + cp mod 64]"
    using b1 b2 b3 by (simp add: numeral_3_eq_3 continuation_percent_octet)
  show ?thesis
    using assms b0 b1 b2 b3
    by (simp add: utf8_encode_def percent_octets_def decode_percent_octet l d c
        length_percent_octet)
qed

lemma unat_less_65536: "unat (c :: code_unit) < 65536"
  using unsigned_less[of c, where ?'a=nat] by simp

lemma decode_code_unit:
  assumes "\<not> is_lead_surrogate c" "\<not> is_trail_surrogate c"
  shows "decodeURIComponent (percent_octets (utf8_encode (unat c)) @ s)
         = prepend [c] (decodeURIComponent s)"
proof -
  have lt: "unat c < 65536" by (rule unat_less_65536)
  have ns: "\<not> (0xD800 \<le> unat c \<and> unat c \<le> 0xDFFF)"
    using assms by (auto simp: is_lead_surrogate_def is_trail_surrogate_def)
  have u: "utf16_encode_code_point (unat c) = [c]"
    using lt by (simp add: utf16_encode_code_point_def)
  consider "unat c < 0x80" | "0x80 \<le> unat c" "unat c < 0x800" | "0x800 \<le> unat c"
    by linarith
  then show ?thesis
  proof cases
    case 1
    then show ?thesis using decode_utf8_1[of "unat c" s] u by simp
  next
    case 2
    then show ?thesis using decode_utf8_2[of "unat c" s] u by simp
  next
    case 3
    then show ?thesis using decode_utf8_3[of "unat c" s] u lt ns by simp
  qed
qed

lemma utf16_of_surrogate_pair:
  assumes "is_lead_surrogate c" "is_trail_surrogate c2"
  shows "utf16_encode_code_point (surrogate_pair_to_code_point c c2) = [c, c2]"
proof -
  define a where "a = unat c - 0xD800"
  define b where "b = unat c2 - 0xDC00"
  have a: "unat c = a + 0xD800" "a < 0x400"
    using assms by (auto simp: a_def is_lead_surrogate_def)
  have b: "unat c2 = b + 0xDC00" "b < 0x400"
    using assms by (auto simp: b_def is_trail_surrogate_def)
  have cp: "surrogate_pair_to_code_point c c2 = a * 0x400 + b + 0x10000"
    by (simp add: surrogate_pair_to_code_point_def a_def b_def)
  have "(a * 0x400 + b) div 0x400 = a" "(a * 0x400 + b) mod 0x400 = b"
    using b(2) by simp_all
  then have "utf16_encode_code_point (surrogate_pair_to_code_point c c2)
             = [of_nat (unat c), of_nat (unat c2)]"
    unfolding cp a(1) b(1) by (simp add: utf16_encode_code_point_def)
  then show ?thesis by simp
qed

lemma surrogate_pair_range:
  assumes "is_lead_surrogate c" "is_trail_surrogate c2"
  shows "0x10000 \<le> surrogate_pair_to_code_point c c2"
    and "surrogate_pair_to_code_point c c2 \<le> 0x10FFFF"
  using assms
  by (auto simp: surrogate_pair_to_code_point_def is_lead_surrogate_def is_trail_surrogate_def)

lemma decode_surrogate_pair:
  assumes "is_lead_surrogate c" "is_trail_surrogate c2"
  shows "decodeURIComponent (percent_octets (utf8_encode (surrogate_pair_to_code_point c c2)) @ s)
         = prepend [c, c2] (decodeURIComponent s)"
  using decode_utf8_4[OF surrogate_pair_range[OF assms]] utf16_of_surrogate_pair[OF assms]
  by simp

lemma unescaped_not_percent: "uri_unescaped c \<Longrightarrow> c \<noteq> percent"
  by (auto simp: uri_unescaped_def is_alnum_def percent_def js_def Let_def)

lemma prepend_Inr: "prepend s r = Inr t \<longleftrightarrow> (\<exists>t'. r = Inr t' \<and> t = s @ t')"
  by (cases r) (auto simp: prepend_def)

lemma decode_encode:
  "encodeURI p = Inr u \<Longrightarrow> decodeURIComponent u = Inr p"
proof (induction p arbitrary: u rule: encodeURI.induct)
  case 1
  then show ?case by simp
next
  case (2 c rest)
  show ?case
  proof (cases "uri_unescaped c")
    case True
    with "2.prems" obtain t where t: "encodeURI rest = Inr t" "u = c # t"
      by (auto simp: prepend_Inr)
    from "2.IH"(1)[OF True t(1)] True show ?thesis
      by (simp add: t(2) unescaped_not_percent prepend_def)
  next
    case False
    note esc = this
    show ?thesis
    proof (cases "is_lead_surrogate c")
      case True
      then have nt: "\<not> is_trail_surrogate c"
        by (auto simp: is_lead_surrogate_def is_trail_surrogate_def)
      from "2.prems" esc nt True obtain c2 rest2 where
        r: "rest = c2 # rest2" and tr: "is_trail_surrogate c2"
        by (cases rest) (auto split: if_splits)
      from "2.prems" esc nt True r tr obtain t where
        t: "encodeURI rest2 = Inr t"
           "u = percent_octets (utf8_encode (surrogate_pair_to_code_point c c2)) @ t"
        by (auto simp: prepend_Inr)
      from "2.IH"(2)[OF esc nt True r tr t(1)] show ?thesis
        by (simp add: t(2) r decode_surrogate_pair[OF True tr] prepend_def)
    next
      case False
      from "2.prems" esc False have nt: "\<not> is_trail_surrogate c"
        by (auto split: if_splits)
      from "2.prems" esc nt False obtain t where
        t: "encodeURI rest = Inr t" "u = percent_octets (utf8_encode (unat c)) @ t"
        by (auto simp: prepend_Inr)
      from "2.IH"(3)[OF esc nt False t(1)] show ?thesis
        by (simp add: t(2) decode_code_unit[OF False nt] prepend_def)
    qed
  qed
qed

lemma unescaped_not_surrogate:
  "uri_unescaped c \<Longrightarrow> \<not> is_trail_surrogate c \<and> \<not> is_lead_surrogate c"
  by (auto simp: uri_unescaped_def is_alnum_def js_def Let_def is_trail_surrogate_def
      is_lead_surrogate_def)

lemma encodeURI_total:
  "well_formed_utf16 p \<Longrightarrow> \<exists>u. encodeURI p = Inr u"
proof (induction p rule: well_formed_utf16.induct)
  case 1
  then show ?case by simp
next
  case (2 c rest)
  then show ?case
    by (cases "uri_unescaped c")
       (auto simp: prepend_def unescaped_not_surrogate split: if_splits list.splits)
qed

text \<open>
  C4: for every path \<open>p\<close> without unpaired surrogates that does not begin with
  \<open>file://\<close>, \<open>pathToUri\<close> returns a URI and \<open>uriToPath\<close> of it returns \<open>p\<close>; spaces,
  non-ASCII characters and the percent sign are among the characters of such a path, and a
  path without a colon never begins with \<open>file://\<close>. And \<open>uriToPath\<close> returns any string
  that does not begin with \<open>file://\<close> as it is.
\<close>

theorem uriToPath_pathToUri_roundtrip:
  "(well_formed_utf16 p \<and> \<not> startsWith p (js ''file://'')
      \<longrightarrow> (\<exists>u. pathToUri p = Inr u \<and> uriToPath u = Inr p))
   \<and> (\<not> startsWith s (js ''file://'') \<longrightarrow> uriToPath s = Inr s)"
proof -
  have "\<exists>u. pathToUri p = Inr u \<and> uriToPath u = Inr p"
    if wf: "well_formed_utf16 p" and np: "\<not> startsWith p (js ''file://'')"
  proof -
    from encodeURI_total[OF wf] obtain e where e: "encodeURI p = Inr e" by blast
    have "pathToUri p = Inr (js ''file://'' @ e)"
      using np e by (simp add: pathToUri_def prepend_def)
    moreover have "uriToPath (js ''file://'' @ e) = Inr p"
      using decode_encode[OF e] by (simp add: uriToPath_def startsWith_def js_def)
    ultimately show ?thesis by blast
  qed
  moreover have "uriToPath s = Inr s" if "\<not> startsWith s (js ''file://'')"
    using that by (simp add: uriToPath_def)
  ultimately show ?thesis by blast
qed


lemma no_colon_no_scheme: "0x3A \<notin> set p \<Longrightarrow> \<not> startsWith p (js ''file://'')"
proof
  assume c: "0x3A \<notin> set p" and s: "startsWith p (js ''file://'')"
  have "set (take (length (js ''file://'')) p) \<subseteq> set p"
    by (rule set_take_subset)
  with s have "set (js ''file://'') \<subseteq> set p"
    by (simp only: startsWith_def)
  moreover have "0x3A \<in> set (js ''file://'')"
    by (simp add: js_def)
  ultimately show False using c by blast
qed

theorem uriToPath_pathToUri_roundtrip_witness:
  "well_formed_utf16 [0x2F, 0x61, 0x20, 0xE9, 0xD83D, 0xDE00]
   \<and> \<not> startsWith [0x2F, 0x61, 0x20, 0xE9, 0xD83D, 0xDE00] (js ''file://'')
   \<and> pathToUri [0x2F, 0x61, 0x20, 0xE9, 0xD83D, 0xDE00] = Inr (js ''file:///a%20%C3%A9%F0%9F%98%80'')
   \<and> uriToPath (js ''file:///a%20%C3%A9%F0%9F%98%80'') = Inr [0x2F, 0x61, 0x20, 0xE9, 0xD83D, 0xDE00]
   \<and> \<not> startsWith (js ''/a b'') (js ''file://'')
   \<and> uriToPath (js ''/a b'') = Inr (js ''/a b'')"
proof -
  let ?p = "[0x2F, 0x61, 0x20, 0xE9, 0xD83D, 0xDE00] :: jsstring"
  have w: "well_formed_utf16 ?p"
    by (simp add: is_trail_surrogate_def is_lead_surrogate_def)
  have n: "\<not> startsWith ?p (js ''file://'')"
    by (simp add: startsWith_def js_def)
  have m: "\<not> startsWith (js ''/a b'') (js ''file://'')"
    by (simp add: startsWith_def js_def)
  have e: "pathToUri ?p = Inr (js ''file:///a%20%C3%A9%F0%9F%98%80'')"
    by (simp add: pathToUri_def startsWith_def js_def prepend_def uri_unescaped_def is_alnum_def
        is_trail_surrogate_def is_lead_surrogate_def surrogate_pair_to_code_point_def
        utf8_encode_def percent_octets_def percent_octet_def hex_digit_def percent_def)
  from uriToPath_pathToUri_roundtrip[of ?p "js ''/a b''"] w n m e show ?thesis
    by auto
qed

section \<open>Properties of the history index\<close>

lemma find_history_Some:
  "find_history lc cwd nt hs = Inr (Some h) \<Longrightarrow>
   h \<in> set hs \<and> (\<exists>c. uriToPath (originalFilePath h) = Inr c)"
  by (induction hs) (auto simp: Let_def split: sum.splits if_splits)

lemma findHistoryByFilePath_Some:
  "findHistoryByFilePath lc cwd st target = Inr (Some h) \<Longrightarrow>
   h \<in> set (getAllFileHistories st)
   \<and> (\<exists>c. uriToPath (originalFilePath h) = Inr c) \<and> (\<exists>c. uriToPath target = Inr c)"
  by (auto simp: findHistoryByFilePath_def Let_def split: sum.splits dest: find_history_Some)

lemma find_history_find:
  "\<forall>h \<in> set hs. \<exists>c. uriToPath (originalFilePath h) = Inr c \<Longrightarrow>
   find_history lc cwd nt hs =
     Inr (List.find (\<lambda>h. case uriToPath (originalFilePath h) of
                            Inl e \<Rightarrow> False
                          | Inr c \<Rightarrow> nt = resolve cwd c \<or> lc nt = lc (resolve cwd c)) hs)"
  by (induction hs) (auto simp: Let_def split: sum.splits)

lemma case_store_histories:
  "getAllFileHistories case_store =
     [\<lparr>originalFilePath = js ''/X/y.txt'', entries = []\<rparr>,
      \<lparr>originalFilePath = js ''/x/y.txt'', entries = []\<rparr>]"
  by (simp add: getAllFileHistories_def getHistoryDirectories_def historyDirectoryExists_def
      case_store_def getFileHistory_def tracked_dir_def parseEntriesJson_def js_def sort_by_def)

lemma resolve_xy: "resolve (js ''/'') (js ''/x/y.txt'') = js ''/x/y.txt''"
  by (simp add: resolve_def js_def slash_def join_segments_def)

lemma resolve_Xy: "resolve (js ''/'') (js ''/X/y.txt'') = js ''/X/y.txt''"
  by (simp add: resolve_def js_def slash_def join_segments_def)

lemma uriToPath_plain_xy: "uriToPath (js ''/x/y.txt'') = Inr (js ''/x/y.txt'')"
  by (simp add: uriToPath_def startsWith_def js_def)

lemma uriToPath_plain_Xy: "uriToPath (js ''/X/y.txt'') = Inr (js ''/X/y.txt'')"
  by (simp add: uriToPath_def startsWith_def js_def)

text \<open>
  C1 as stated fails: \<open>/X/y.txt\<close> is listed before \<open>/x/y.txt\<close>, the target
  \<open>/x/y.txt\<close> equals the second exactly, and the lookup returns the first, which matches
  only when case is ignored.
\<close>

theorem findHistoryByFilePath_shadowed_exact_match:
  "getAllFileHistories case_store =
     [\<lparr>originalFilePath = js ''/X/y.txt'', entries = []\<rparr>,
      \<lparr>originalFilePath = js ''/x/y.txt'', entries = []\<rparr>]
   \<and> uriToPath (js ''/x/y.txt'') = Inr (js ''/x/y.txt'')
   \<and> resolve (js ''/'') (js ''/x/y.txt'') = js ''/x/y.txt''
   \<and> findHistoryByFilePath toLowerCase_ascii (js ''/'') case_store (js ''/x/y.txt'')
       = Inr (Some \<lparr>originalFilePath = js ''/X/y.txt'', entries = []\<rparr>)"
proof -
  have "findHistoryByFilePath toLowerCase_ascii (js ''/'') case_store (js ''/x/y.txt'')
       = Inr (Some \<lparr>originalFilePath = js ''/X/y.txt'', entries = []\<rparr>)"
    unfolding findHistoryByFilePath_def case_store_histories
    by (simp add: uriToPath_plain_xy uriToPath_plain_Xy resolve_xy resolve_Xy)
       (simp add: js_def toLowerCase_ascii_def)
  then show ?thesis
    using case_store_histories uriToPath_plain_xy resolve_xy by simp
qed

text \<open>
  C1, amended: when no \<open>originalFilePath\<close> makes \<open>uriToPath\<close> throw,
  \<open>findHistoryByFilePath\<close> returns the first history, in the order of
  \<open>getAllFileHistories\<close>, whose normalized path equals the normalized target exactly or
  after \<open>toLowerCase\<close>, and \<open>null\<close> when there is none. So a history that matches exactly
  is returned when no history before it matches exactly or case-insensitively.
\<close>

theorem findHistoryByFilePath_first_match:
  assumes "uriToPath target = Inr cleanTarget"
    and "\<forall>h \<in> set (getAllFileHistories st). \<exists>c. uriToPath (originalFilePath h) = Inr c"
  shows "findHistoryByFilePath toLowerCase cwd st target =
           Inr (List.find
                  (\<lambda>h. case uriToPath (originalFilePath h) of
                          Inl e \<Rightarrow> False
                        | Inr c \<Rightarrow>
                            resolve cwd cleanTarget = resolve cwd c
                            \<or> toLowerCase (resolve cwd cleanTarget) = toLowerCase (resolve cwd c))
                  (getAllFileHistories st))"
  using assms by (simp add: findHistoryByFilePath_def find_history_find)

lemma example_histories:
  "getAllFileHistories example_store =
     [\<lparr>originalFilePath = js ''/x/y.txt'',
        entries = [\<lparr>timestamp = Finite 9, content = js ''new Foo'',
                     filePath = js ''/h/d1/b'', relativePath = js ''b''\<rparr>,
                   \<lparr>timestamp = Finite 5, content = js ''old foo'',
                     filePath = js ''/h/d1/a'', relativePath = js ''a''\<rparr>]\<rparr>]"
proof -
  have "getHistoryDirectories example_store = [js ''d1'']"
    by (simp add: getHistoryDirectories_def historyDirectoryExists_def example_store_def)
  then show ?thesis
    by (simp add: getAllFileHistories_def example_history)
qed

theorem findHistoryByFilePath_first_match_witness:
  "findHistoryByFilePath toLowerCase_ascii (js ''/'') example_store (js ''file:///x/y.txt'') =
     Inr (Some \<lparr>originalFilePath = js ''/x/y.txt'',
        entries = [\<lparr>timestamp = Finite 9, content = js ''new Foo'',
                     filePath = js ''/h/d1/b'', relativePath = js ''b''\<rparr>,
                   \<lparr>timestamp = Finite 5, content = js ''old foo'',
                     filePath = js ''/h/d1/a'', relativePath = js ''a''\<rparr>]\<rparr>)"
proof -
  have t: "uriToPath (js ''file:///x/y.txt'') = Inr (js ''/x/y.txt'')"
    by (simp add: uriToPath_def startsWith_def js_def percent_def prepend_def)
  have a: "\<forall>h \<in> set (getAllFileHistories example_store). \<exists>c. uriToPath (originalFilePath h) = Inr c"
    by (simp add: example_histories uriToPath_plain_xy)
  show ?thesis
    using findHistoryByFilePath_first_match[OF t a, of toLowerCase_ascii "js ''/''"]
    by (simp add: example_histories uriToPath_plain_xy resolve_xy)
qed

section \<open>Properties of the restore operation\<close>

lemma mkdir_chain_frame:
  "mkdir_chain d qs = (made, d') \<Longrightarrow>
   write_denied d' = write_denied d
   \<and> (\<forall>p. nodes d' p = nodes d p \<or> (nodes d p = None \<and> nodes d' p = Some Dir))"
proof (induction qs arbitrary: d)
  case Nil
  then show ?case by simp
next
  case (Cons q qs)
  show ?case
  proof (cases "nodes d q")
    case None
    show ?thesis
    proof (cases "write_denied d q")
      case True
      with None Cons.prems show ?thesis by simp
    next
      case False
      with None Cons.prems
      have "mkdir_chain (d\<lparr>nodes := (nodes d)(q \<mapsto> Dir)\<rparr>) qs = (made, d')" by simp
      from Cons.IH[OF this]
      have w: "write_denied d' = write_denied d"
        and f: "nodes d' p = ((nodes d)(q \<mapsto> Dir)) p
                \<or> (((nodes d)(q \<mapsto> Dir)) p = None \<and> nodes d' p = Some Dir)" for p
        by simp_all
      have "nodes d' p = nodes d p \<or> (nodes d p = None \<and> nodes d' p = Some Dir)" for p
        using f[of p] None by (cases "p = q") auto
      with w show ?thesis by blast
    qed
  next
    case (Some n)
    with Cons show ?thesis by (cases n) auto
  qed
qed

lemma writeFileSync_Inr:
  "writeFileSync d p c = Inr d' \<Longrightarrow> d' = d\<lparr>nodes := (nodes d)(p \<mapsto> File c)\<rparr>"
  by (auto simp: writeFileSync_def split: if_splits option.splits node.splits)

lemma writeFileSync_returns:
  "\<not> write_denied d p \<Longrightarrow> nodes d (dirname p) = Some Dir \<Longrightarrow> nodes d p \<noteq> Some Dir \<Longrightarrow>
   writeFileSync d p c = Inr (d\<lparr>nodes := (nodes d)(p \<mapsto> File c)\<rparr>)"
  by (auto simp: writeFileSync_def split: option.splits node.splits)

lemma copyFileSync_Inr:
  "copyFileSync d src dest = Inr d' \<Longrightarrow>
   \<exists>c. nodes d src = Some (File c) \<and> d' = d\<lparr>nodes := (nodes d)(dest \<mapsto> File c)\<rparr>"
  by (auto simp: copyFileSync_def split: option.splits node.splits dest: writeFileSync_Inr)

lemma decimal_nonempty: "decimal n \<noteq> []"
  by (subst decimal.simps) simp

lemma digit_inj:
  assumes "a < 10" "b < 10" "(of_nat (48 + a) :: code_unit) = of_nat (48 + b)"
  shows "a = b"
proof -
  have "unat (of_nat (48 + a) :: code_unit) = 48 + a" "unat (of_nat (48 + b) :: code_unit) = 48 + b"
    using assms(1,2) by (simp_all add: unat_of_nat del: of_nat_add)
  with assms(3) show ?thesis by simp
qed

lemma decimal_inj: "decimal n = decimal m \<Longrightarrow> n = m"
proof (induction n arbitrary: m rule: less_induct)
  case (less n)
  show ?case
  proof (cases "n < 10")
    case n: True
    show ?thesis
    proof (cases "m < 10")
      case True
      with n less.prems show ?thesis
        by (subst (asm) decimal.simps, subst (asm) (2) decimal.simps) (auto dest: digit_inj)
    next
      case False
      have "length (decimal m) \<ge> 2"
        using False decimal_nonempty[of "m div 10"]
        by (subst decimal.simps) (cases "decimal (m div 10)", auto)
      moreover have "length (decimal n) = 1"
        using n by (subst decimal.simps) simp
      ultimately show ?thesis using less.prems by simp
    qed
  next
    case n: False
    show ?thesis
    proof (cases "m < 10")
      case True
      have "length (decimal n) \<ge> 2"
        using n decimal_nonempty[of "n div 10"]
        by (subst decimal.simps) (cases "decimal (n div 10)", auto)
      moreover have "length (decimal m) = 1"
        using True by (subst decimal.simps) simp
      ultimately show ?thesis using less.prems by simp
    next
      case False
      have dn: "decimal n = decimal (n div 10) @ [of_nat (48 + n mod 10)]"
        using n by (subst decimal.simps) simp
      have dm: "decimal m = decimal (m div 10) @ [of_nat (48 + m mod 10)]"
        using False by (subst decimal.simps) simp
      from less.prems have e: "decimal (n div 10) = decimal (m div 10)"
        and l: "(of_nat (48 + n mod 10) :: code_unit) = of_nat (48 + m mod 10)"
        unfolding dn dm by simp_all
      have "n div 10 < n" using n by simp
      from less.IH[OF this e] have q: "n div 10 = m div 10" .
      have r: "n mod 10 = m mod 10"
        by (rule digit_inj[OF _ _ l]) simp_all
      from q r show ?thesis
        by (metis div_mult_mod_eq)
    qed
  qed
qed


lemma backup_path_inj:
  "t @ js ''.backup.'' @ decimal n = t @ js ''.backup.'' @ decimal m \<Longrightarrow> n = m"
  by (simp add: decimal_inj)

lemma backup_path_differs: "t @ js ''.backup.'' @ decimal n \<noteq> t"
  by (simp add: js_def)

text \<open>
  C5: when the lookup finds a history and \<open>entryIndex\<close> is below 0 or not below
  \<open>entries.length\<close>, \<open>restoreFromHistory\<close> returns the reply that names the index and the
  range \<open>0\<close> to \<open>entries.length - 1\<close>, and the disk after the call is the disk before it.
\<close>

theorem restoreFromHistory_out_of_range:
  assumes "findHistoryByFilePath toLowerCase cwd st path = Inr (Some history)"
    and "idx < 0 \<or> int (length (entries history)) \<le> idx"
  shows "restoreFromHistory toLowerCase cwd now st d path idx createBackup
           = Inr (InvalidIndex idx (int (length (entries history)) - 1), d)"
  using assms by (auto simp: restoreFromHistory_def)

lemma example_lookup:
  "findHistoryByFilePath toLowerCase_ascii (js ''/'') example_store (js ''/x/y.txt'') =
     Inr (Some \<lparr>originalFilePath = js ''/x/y.txt'',
        entries = [\<lparr>timestamp = Finite 9, content = js ''new Foo'',
                     filePath = js ''/h/d1/b'', relativePath = js ''b''\<rparr>,
                   \<lparr>timestamp = Finite 5, content = js ''old foo'',
                     filePath = js ''/h/d1/a'', relativePath = js ''a''\<rparr>]\<rparr>)"
  by (simp add: findHistoryByFilePath_def example_histories uriToPath_plain_xy resolve_xy)

theorem restoreFromHistory_out_of_range_witness:
  "restoreFromHistory toLowerCase_ascii (js ''/'') 1000 example_store example_disk
     (js ''/x/y.txt'') 999 True = Inr (InvalidIndex 999 1, example_disk)"
  using restoreFromHistory_out_of_range[OF example_lookup, of 999 1000 example_disk True]
  by simp

lemma js_inj: "js a = js b \<longleftrightarrow> a = b"
proof -
  have "inj (\<lambda>c. of_nat (of_char c) :: code_unit)"
  proof (rule injI)
    fix x y :: char
    assume e: "(of_nat (of_char x) :: code_unit) = of_nat (of_char y)"
    have "(of_char x :: nat) < 65536" "(of_char y :: nat) < 65536"
      using nat_of_char_less_256[of x] nat_of_char_less_256[of y] by linarith+
    then have u: "unat (of_nat (of_char x) :: code_unit) = of_char x"
      "unat (of_nat (of_char y) :: code_unit) = of_char y"
      by (simp_all add: unat_of_nat16)
    from e have "unat (of_nat (of_char x) :: code_unit) = unat (of_nat (of_char y) :: code_unit)"
      by (rule arg_cong)
    then have "(of_char x :: nat) = of_char y"
      by (simp only: u)
    then show "x = y" by simp
  qed
  then show ?thesis
    unfolding js_def by (rule inj_map_eq_map)
qed

lemma js_append: "js a @ js b = js (a @ b)"
  by (simp add: js_def)

lemma dirname_xy: "dirname (js ''/x/y.txt'') = js ''/x''"
  by (simp add: dirname_def js_def slash_def)

lemma dirname_backup: "dirname (js ''/x/y.txt.backup.1000'') = js ''/x''"
  by (simp add: dirname_def js_def slash_def)

lemma decimal_1000: "decimal 1000 = js ''1000''"
  by (simp add: js_def)

lemma first_restore:
  "restoreFromHistory toLowerCase_ascii (js ''/'') 1000 example_store example_disk
       (js ''/x/y.txt'') 0 True
     = Inr (RestoredWithBackup (js ''/x/y.txt'') 0 (js ''/x/y.txt.backup.1000'') (Finite 9), disk_after_first)"
  unfolding restoreFromHistory_def example_lookup
  by (simp add: uriToPath_plain_xy restore_try_def dirname_xy decimal_1000 js_append Let_def
      existsSync_def example_disk_def js_inj
      copyFileSync_def writeFileSync_def dirname_backup disk_after_first_def del: decimal.simps)

lemma second_restore:
  "restoreFromHistory toLowerCase_ascii (js ''/'') 1000 example_store disk_after_first
       (js ''/x/y.txt'') 1 True
     = Inr (RestoredWithBackup (js ''/x/y.txt'') 1 (js ''/x/y.txt.backup.1000'') (Finite 5), disk_after_second)"
  unfolding restoreFromHistory_def example_lookup
  by (simp add: uriToPath_plain_xy restore_try_def dirname_xy decimal_1000 js_append Let_def
      existsSync_def example_disk_def js_inj
      copyFileSync_def writeFileSync_def dirname_backup disk_after_first_def disk_after_second_def del: decimal.simps)

lemma blocked_restore:
  "restoreFromHistory toLowerCase_ascii (js ''/'') 1000 example_store blocked_disk
       (js ''/x/y.txt'') 0 True
     = Inr (RestoreFailed, blocked_disk)"
  unfolding restoreFromHistory_def example_lookup
  by (simp add: uriToPath_plain_xy restore_try_def dirname_xy decimal_1000 js_append Let_def
      existsSync_def blocked_disk_def js_inj
      copyFileSync_def writeFileSync_def dirname_backup del: decimal.simps)

lemma directory_restore:
  "restoreFromHistory toLowerCase_ascii (js ''/'') 1000 example_store directory_disk
       (js ''/x/y.txt'') 0 True
     = Inr (RestoreFailed, directory_disk)"
  unfolding restoreFromHistory_def example_lookup
  by (simp add: uriToPath_plain_xy restore_try_def dirname_xy decimal_1000 js_append Let_def
      existsSync_def directory_disk_def js_inj
      copyFileSync_def writeFileSync_def dirname_backup del: decimal.simps)

lemma restore_try_prepared:
  assumes "(if \<not> existsSync d (dirname t) then mkdirSync_recursive d (dirname t) else (True, d))
             = (made, d1)"
  shows "restore_try now d t e idx createBackup =
     (if \<not> made then (RestoreFailed, d1)
      else if createBackup \<and> existsSync d1 t then
        (case copyFileSync d1 t (t @ js ''.backup.'' @ decimal now) of
           Inl x \<Rightarrow> (RestoreFailed, d1)
         | Inr d2 \<Rightarrow>
             (case writeFileSync d2 t (content e) of
                Inl x \<Rightarrow> (RestoreFailed, d2)
              | Inr d3 \<Rightarrow>
                  (RestoredWithBackup t idx (t @ js ''.backup.'' @ decimal now) (timestamp e), d3)))
      else
        (case writeFileSync d1 t (content e) of
           Inl x \<Rightarrow> (RestoreFailed, d1)
         | Inr d2 \<Rightarrow> (RestoredNoBackup t idx (timestamp e), d2)))"
  unfolding restore_try_def Let_def assms by (simp del: decimal.simps)

lemma prepare_frame:
  assumes "(if \<not> existsSync d q then mkdirSync_recursive d q else (True, d)) = (made, d1)"
  shows "write_denied d1 = write_denied d"
    and "nodes d1 p = nodes d p \<or> (nodes d p = None \<and> nodes d1 p = Some Dir)"
    and "nodes d q = Some Dir \<Longrightarrow> made \<and> d1 = d"
  using assms mkdir_chain_frame[of d "dir_chain q" made d1]
  by (auto simp: mkdirSync_recursive_def existsSync_def split: if_splits)

lemma restore_try_absent:
  assumes absent: "\<not> existsSync d t"
  shows "\<exists>r d'. restore_try now d t e idx True = (r, d')
           \<and> (r = RestoredNoBackup t idx (timestamp e) \<and> nodes d' t = Some (File (content e))
                \<or> r = RestoreFailed)
           \<and> (\<forall>p c. p \<noteq> t \<and> nodes d' p = Some (File c) \<longrightarrow> nodes d p = Some (File c))
           \<and> (nodes d (dirname t) = Some Dir \<and> \<not> write_denied d t
                \<longrightarrow> r = RestoredNoBackup t idx (timestamp e))"
proof -
  obtain made d1 where
    m: "(if \<not> existsSync d (dirname t) then mkdirSync_recursive d (dirname t) else (True, d))
          = (made, d1)"
    by (cases "if \<not> existsSync d (dirname t) then mkdirSync_recursive d (dirname t) else (True, d)")
  note fr = prepare_frame[OF m]
  have keep: "nodes d p = Some (File c)" if "nodes d1 p = Some (File c)" for p c
    using fr(2)[of p] that by auto
  have t1: "nodes d1 t = None \<or> nodes d1 t = Some Dir"
    using fr(2)[of t] absent by (auto simp: existsSync_def)
  show ?thesis
  proof (cases made)
    case False
    then have "restore_try now d t e idx True = (RestoreFailed, d1)"
      by (simp add: restore_try_prepared[OF m] del: decimal.simps)
    moreover have "\<not> (nodes d (dirname t) = Some Dir)"
      using fr(3) False by blast
    ultimately show ?thesis using keep by auto
  next
    case True
    note made = this
    show ?thesis
    proof (cases "nodes d1 t")
      case (Some n)
      with t1 have nd: "nodes d1 t = Some Dir" by simp
      then have "restore_try now d t e idx True = (RestoreFailed, d1)"
        by (simp add: restore_try_prepared[OF m] made existsSync_def copyFileSync_def
            del: decimal.simps)
      moreover have "\<not> (nodes d (dirname t) = Some Dir)"
        using fr(3) nd absent by (auto simp: existsSync_def)
      ultimately show ?thesis using keep by auto
    next
      case None
      then have r: "restore_try now d t e idx True =
                      (case writeFileSync d1 t (content e) of
                         Inl x \<Rightarrow> (RestoreFailed, d1)
                       | Inr d2 \<Rightarrow> (RestoredNoBackup t idx (timestamp e), d2))"
        by (simp add: restore_try_prepared[OF m] made existsSync_def del: decimal.simps)
      show ?thesis
      proof (cases "writeFileSync d1 t (content e)")
        case (Inl x)
        have "\<not> (nodes d (dirname t) = Some Dir \<and> \<not> write_denied d t)"
        proof
          assume a: "nodes d (dirname t) = Some Dir \<and> \<not> write_denied d t"
          with fr(3) have "d1 = d" by blast
          with a None have "writeFileSync d1 t (content e)
                              = Inr (d\<lparr>nodes := (nodes d)(t \<mapsto> File (content e))\<rparr>)"
            by (simp add: writeFileSync_returns)
          with Inl show False by simp
        qed
        with r Inl keep show ?thesis by auto
      next
        case (Inr d2)
        from writeFileSync_Inr[OF Inr]
        have d2: "d2 = d1\<lparr>nodes := (nodes d1)(t \<mapsto> File (content e))\<rparr>" .
        have "nodes d2 t = Some (File (content e))" by (simp add: d2)
        moreover have "nodes d p = Some (File c)" if "p \<noteq> t" "nodes d2 p = Some (File c)" for p c
          using that keep by (simp add: d2)
        ultimately show ?thesis using r Inr by auto
      qed
    qed
  qed
qed


lemma dir_chain_mem:
  "q \<in> set (dir_chain p) \<Longrightarrow> q = p \<or> (1 \<le> length q \<and> length q < length p)"
  by (auto simp: dir_chain_def)

lemma dir_chain_self: "p \<in> set (dir_chain p)"
  by (simp add: dir_chain_def)

lemma length_dirname: "p \<noteq> [] \<Longrightarrow> length (dirname p) \<le> length p"
proof -
  assume p: "p \<noteq> []"
  define r where "r = dropWhile (\<lambda>c. c \<noteq> slash) (dropWhile (\<lambda>c. c = slash) (rev (tl p)))"
  have "length r \<le> length (dropWhile (\<lambda>c. c = slash) (rev (tl p)))"
    unfolding r_def by (rule length_dropWhile_le)
  also have "\<dots> \<le> length (rev (tl p))"
    by (rule length_dropWhile_le)
  finally have r: "length r \<le> length p - 1" by simp
  from p have l: "1 \<le> length p" by (cases p) simp_all
  have dn: "dirname p =
              (if r = [] then (if hd p = slash then js ''/'' else js ''.'')
               else if hd p = slash \<and> length r = 1 then js ''//''
               else take (length r) p)"
    unfolding dirname_def Let_def r_def using p by simp
  have one: "length (js ''/'') = 1" "length (js ''.'') = 1" "length (js ''//'') = 2"
    by (simp_all add: js_def)
  show ?thesis
  proof (cases "r = []")
    case True
    with l one show ?thesis by (simp only: dn split: if_splits) auto
  next
    case False
    then have "1 \<le> length r" by (cases r) simp_all
    with r have "2 \<le> length p" by linarith
    with False one show ?thesis
      by (simp only: dn split: if_splits) auto
  qed
qed

lemma target_outside_chain:
  assumes "p \<noteq> dirname p"
  shows "p \<notin> set (dir_chain (dirname p))"
proof
  assume m: "p \<in> set (dir_chain (dirname p))"
  from dir_chain_mem[OF m] assms
  have l: "1 \<le> length p" "length p < length (dirname p)" by auto
  then have "p \<noteq> []" by auto
  from length_dirname[OF this] l show False by simp
qed

lemma mkdir_chain_made_iff:
  "fst (mkdir_chain d qs) \<longleftrightarrow>
     (\<forall>q \<in> set qs. nodes d q = Some Dir \<or> (nodes d q = None \<and> \<not> write_denied d q))"
proof (induction qs arbitrary: d)
  case Nil
  then show ?case by simp
next
  case (Cons q qs)
  show ?case
  proof (cases "nodes d q")
    case None
    show ?thesis
    proof (cases "write_denied d q")
      case True
      with None show ?thesis by simp
    next
      case False
      let ?d = "d\<lparr>nodes := (nodes d)(q \<mapsto> Dir)\<rparr>"
      have "(nodes ?d q' = Some Dir \<or> (nodes ?d q' = None \<and> \<not> write_denied ?d q'))
            = (nodes d q' = Some Dir \<or> (nodes d q' = None \<and> \<not> write_denied d q'))" for q'
        using None False by (cases "q' = q") simp_all
      with Cons.IH[of ?d] None False show ?thesis by simp
    qed
  next
    case (Some n)
    with Cons.IH[of d] show ?thesis by (cases n) simp_all
  qed
qed

lemma mkdir_chain_outside:
  "mkdir_chain d qs = (made, d') \<Longrightarrow> p \<notin> set qs \<Longrightarrow> nodes d' p = nodes d p"
proof (induction qs arbitrary: d)
  case Nil
  then show ?case by simp
next
  case (Cons q qs)
  show ?case
  proof (cases "nodes d q")
    case None
    show ?thesis
    proof (cases "write_denied d q")
      case True
      with None Cons.prems show ?thesis by simp
    next
      case False
      with None Cons.prems
      have "mkdir_chain (d\<lparr>nodes := (nodes d)(q \<mapsto> Dir)\<rparr>) qs = (made, d')" by simp
      from Cons.IH[OF this] Cons.prems(2) show ?thesis by simp
    qed
  next
    case (Some n)
    with Cons show ?thesis by (cases n) auto
  qed
qed

lemma mkdir_chain_dirs:
  "mkdir_chain d qs = (True, d') \<Longrightarrow> q \<in> set qs \<Longrightarrow> nodes d' q = Some Dir"
proof (induction qs arbitrary: d)
  case Nil
  then show ?case by simp
next
  case (Cons x qs)
  have keep: "nodes d' q = Some Dir" if "mkdir_chain d0 qs = (True, d')" "nodes d0 q = Some Dir" for d0
  proof -
    from mkdir_chain_frame[OF that(1)]
    have "nodes d' q = nodes d0 q \<or> (nodes d0 q = None \<and> nodes d' q = Some Dir)" by blast
    with that(2) show ?thesis by auto
  qed
  show ?case
  proof (cases "nodes d x")
    case None
    with Cons.prems(1) have nd: "\<not> write_denied d x"
      and m: "mkdir_chain (d\<lparr>nodes := (nodes d)(x \<mapsto> Dir)\<rparr>) qs = (True, d')"
      by (auto split: if_splits)
    show ?thesis
    proof (cases "q = x")
      case True
      then show ?thesis using keep[OF m] by simp
    next
      case False
      with Cons.prems(2) have "q \<in> set qs" by simp
      from Cons.IH[OF m this] show ?thesis .
    qed
  next
    case (Some n)
    with Cons.prems(1) have n: "n = Dir"
      by (cases n) simp_all
    with Some Cons.prems(1) have m: "mkdir_chain d qs = (True, d')"
      by simp
    show ?thesis
    proof (cases "q = x")
      case True
      then show ?thesis using keep[OF m] Some n by simp
    next
      case False
      with Cons.prems(2) have "q \<in> set qs" by simp
      from Cons.IH[OF m this] show ?thesis .
    qed
  qed
qed

lemma restore_try_absent_success:
  assumes absent: "\<not> existsSync d t"
  shows "fst (restore_try now d t e idx True) = RestoredNoBackup t idx (timestamp e) \<longleftrightarrow>
           \<not> write_denied d t
           \<and> (nodes d (dirname t) = Some Dir
                \<or> (nodes d (dirname t) = None \<and> t \<noteq> dirname t
                    \<and> (\<forall>q \<in> set (dir_chain (dirname t)).
                          nodes d q = Some Dir \<or> (nodes d q = None \<and> \<not> write_denied d q))))"
    (is "?l \<longleftrightarrow> ?r")
proof -
  from absent have tn: "nodes d t = None" by (simp add: existsSync_def)
  obtain made d1 where
    m: "(if \<not> existsSync d (dirname t) then mkdirSync_recursive d (dirname t) else (True, d))
          = (made, d1)"
    by (cases "if \<not> existsSync d (dirname t) then mkdirSync_recursive d (dirname t) else (True, d)")
  note un = restore_try_prepared[OF m, of now e idx True]
  show ?thesis
  proof (cases "nodes d (dirname t)")
    case (Some n)
    with m have d1: "made" "d1 = d" by (simp_all add: existsSync_def)
    show ?thesis
      unfolding un using d1 tn Some
      by (cases n) (auto simp: existsSync_def writeFileSync_def)
  next
    case None
    with m have mk: "mkdir_chain d (dir_chain (dirname t)) = (made, d1)"
      by (simp add: existsSync_def mkdirSync_recursive_def)
    have made: "made \<longleftrightarrow> (\<forall>q \<in> set (dir_chain (dirname t)).
                   nodes d q = Some Dir \<or> (nodes d q = None \<and> \<not> write_denied d q))"
      using mkdir_chain_made_iff[of d "dir_chain (dirname t)"] mk by simp
    have wd: "write_denied d1 = write_denied d"
      using mkdir_chain_frame[OF mk] by simp
    show ?thesis
    proof (cases made)
      case False
      then show ?thesis unfolding un using made None by simp
    next
      case True
      with mk have mk': "mkdir_chain d (dir_chain (dirname t)) = (True, d1)" by simp
      have pd: "nodes d1 (dirname t) = Some Dir"
        using mkdir_chain_dirs[OF mk' dir_chain_self] .
      show ?thesis
      proof (cases "t = dirname t")
        case eq: True
        then have "nodes d1 t = Some Dir" using pd by simp
        then have "fst (restore_try now d t e idx True) = RestoreFailed"
          unfolding un using True by (simp add: existsSync_def copyFileSync_def)
        moreover have "\<not> ?r" using eq None by simp
        ultimately show ?thesis by simp
      next
        case ne: False
        from mkdir_chain_outside[OF mk target_outside_chain[OF ne]] tn
        have t1: "nodes d1 t = None" by simp
        have "fst (restore_try now d t e idx True) = RestoredNoBackup t idx (timestamp e)
              \<longleftrightarrow> \<not> write_denied d t"
          unfolding un using True t1 pd wd
          by (simp add: existsSync_def writeFileSync_def)
        moreover have "?r \<longleftrightarrow> \<not> write_denied d t"
          using None ne made True by simp
        ultimately show ?thesis by simp
      qed
    qed
  qed
qed

lemma restoreFromHistory_valid_index:
  assumes "findHistoryByFilePath toLowerCase cwd st path = Inr (Some history)"
    and "0 \<le> idx" "idx < int (length (entries history))"
    and "uriToPath (originalFilePath history) = Inr originalPath"
    and "uriToPath path = Inr inputPath"
  shows "restoreFromHistory toLowerCase cwd now st d path idx createBackup =
           Inr (restore_try now d (if existsSync d inputPath then inputPath else originalPath)
                  (entries history ! nat idx) idx createBackup)"
  using assms by (simp add: restoreFromHistory_def Let_def)

text \<open>
  C10 as stated fails where the parent of the target is a plain file: the target does not
  exist, \<open>fs.writeFileSync\<close> throws, and the reply is the failure text, not a success.
\<close>

theorem restoreFromHistory_absent_target_failure:
  "\<not> existsSync blocked_disk (js ''/x/y.txt'')
   \<and> restoreFromHistory toLowerCase_ascii (js ''/'') 1000 example_store blocked_disk
         (js ''/x/y.txt'') 0 True
       = Inr (RestoreFailed, blocked_disk)"
  using blocked_restore by (simp add: existsSync_def blocked_disk_def js_inj)

text \<open>
  C10, amended: with \<open>createBackup\<close> true, a valid index and a target that does not exist,
  the call returns either the success reply that says no backup was created, and then the
  target holds the content of the selected entry, or the failure reply; in both cases no
  file other than the target is created or changed, so there is no backup. The failure
  reply is returned only when writing the target or creating its parent directory throws:
  the success reply is returned exactly when the target can be written and its parent
  directory either exists as a directory or is missing and can be created, that is, the
  target is not its own parent (as \<open>/\<close> and \<open>.\<close> are) and each directory on the way to the
  parent is there as a directory or is missing and can be made.
\<close>

theorem restoreFromHistory_absent_target:
  assumes "findHistoryByFilePath toLowerCase cwd st path = Inr (Some history)"
    and "0 \<le> idx" "idx < int (length (entries history))"
    and "uriToPath (originalFilePath history) = Inr originalPath"
    and "uriToPath path = Inr inputPath"
    and "targetPath = (if existsSync d inputPath then inputPath else originalPath)"
    and "\<not> existsSync d targetPath"
  shows "\<exists>r d'. restoreFromHistory toLowerCase cwd now st d path idx True = Inr (r, d')
           \<and> (r = RestoredNoBackup targetPath idx (timestamp (entries history ! nat idx))
                  \<and> nodes d' targetPath = Some (File (content (entries history ! nat idx)))
                \<or> r = RestoreFailed)
           \<and> (\<forall>p c. p \<noteq> targetPath \<and> nodes d' p = Some (File c) \<longrightarrow> nodes d p = Some (File c))
           \<and> (nodes d (dirname targetPath) = Some Dir \<and> \<not> write_denied d targetPath
                \<longrightarrow> r = RestoredNoBackup targetPath idx (timestamp (entries history ! nat idx)))
           \<and> (r = RestoredNoBackup targetPath idx (timestamp (entries history ! nat idx)) \<longleftrightarrow>
                \<not> write_denied d targetPath
                \<and> (nodes d (dirname targetPath) = Some Dir
                     \<or> (nodes d (dirname targetPath) = None \<and> targetPath \<noteq> dirname targetPath
                         \<and> (\<forall>q \<in> set (dir_chain (dirname targetPath)).
                               nodes d q = Some Dir
                               \<or> (nodes d q = None \<and> \<not> write_denied d q)))))"
proof -
  let ?e = "entries history ! nat idx"
  from restore_try_absent[OF assms(7), of now ?e idx] obtain r d' where
    t: "restore_try now d targetPath ?e idx True = (r, d')"
    and a: "r = RestoredNoBackup targetPath idx (timestamp ?e)
              \<and> nodes d' targetPath = Some (File (content ?e))
            \<or> r = RestoreFailed"
    and f: "\<forall>p c. p \<noteq> targetPath \<and> nodes d' p = Some (File c) \<longrightarrow> nodes d p = Some (File c)"
    and s: "nodes d (dirname targetPath) = Some Dir \<and> \<not> write_denied d targetPath
            \<longrightarrow> r = RestoredNoBackup targetPath idx (timestamp ?e)"
    by blast
  have "restoreFromHistory toLowerCase cwd now st d path idx True = Inr (r, d')"
    unfolding restoreFromHistory_valid_index[OF assms(1-5)] assms(6)[symmetric] t ..
  moreover have "r = RestoredNoBackup targetPath idx (timestamp ?e) \<longleftrightarrow>
                \<not> write_denied d targetPath
                \<and> (nodes d (dirname targetPath) = Some Dir
                     \<or> (nodes d (dirname targetPath) = None \<and> targetPath \<noteq> dirname targetPath
                         \<and> (\<forall>q \<in> set (dir_chain (dirname targetPath)).
                               nodes d q = Some Dir
                               \<or> (nodes d q = None \<and> \<not> write_denied d q))))"
    using restore_try_absent_success[OF assms(7), of now ?e idx] t by simp
  ultimately show ?thesis using a f s by blast
qed

lemma absent_restore:
  "restoreFromHistory toLowerCase_ascii (js ''/'') 1000 example_store absent_disk
       (js ''/x/y.txt'') 0 True
     = Inr (RestoredNoBackup (js ''/x/y.txt'') 0 (Finite 9),
            absent_disk\<lparr>nodes := (nodes absent_disk)(js ''/x/y.txt'' \<mapsto> File (js ''new Foo''))\<rparr>)"
  unfolding restoreFromHistory_def example_lookup
  by (simp add: uriToPath_plain_xy restore_try_def dirname_xy Let_def
      existsSync_def absent_disk_def js_inj writeFileSync_def del: decimal.simps)

lemma dir_chain_x: "dir_chain (js ''/x'') = [js ''/x'']"
  by (simp add: dir_chain_def js_def slash_def)

theorem restoreFromHistory_absent_target_witness:
  "\<not> existsSync absent_disk (js ''/x/y.txt'')
   \<and> restoreFromHistory toLowerCase_ascii (js ''/'') 1000 example_store absent_disk
         (js ''/x/y.txt'') 0 True
       = Inr (RestoredNoBackup (js ''/x/y.txt'') 0 (Finite 9),
              absent_disk\<lparr>nodes := (nodes absent_disk)(js ''/x/y.txt'' \<mapsto> File (js ''new Foo''))\<rparr>)
   \<and> nodes (absent_disk\<lparr>nodes := (nodes absent_disk)(js ''/x/y.txt'' \<mapsto> File (js ''new Foo''))\<rparr>)
         (js ''/x/y.txt.backup.1000'') = None
   \<and> \<not> existsSync root_disk (js ''/x/y.txt'')
   \<and> \<not> existsSync root_disk (js ''/x'')
   \<and> (\<exists>d'. restoreFromHistory toLowerCase_ascii (js ''/'') 1000 example_store root_disk
                (js ''/x/y.txt'') 0 True
              = Inr (RestoredNoBackup (js ''/x/y.txt'') 0 (Finite 9), d')
            \<and> nodes d' (js ''/x/y.txt'') = Some (File (js ''new Foo'')))"
proof -
  have a: "\<not> existsSync absent_disk (js ''/x/y.txt'')"
    by (simp add: existsSync_def absent_disk_def js_inj)
  let ?h = "\<lparr>originalFilePath = js ''/x/y.txt'',
              entries = [\<lparr>timestamp = Finite 9, content = js ''new Foo'',
                           filePath = js ''/h/d1/b'', relativePath = js ''b''\<rparr>,
                         \<lparr>timestamp = Finite 5, content = js ''old foo'',
                           filePath = js ''/h/d1/a'', relativePath = js ''a''\<rparr>]\<rparr>"
  have b: "nodes absent_disk (js ''/x/y.txt.backup.1000'') = None"
    by (simp add: absent_disk_def js_inj)
  have "\<exists>r d'. restoreFromHistory toLowerCase_ascii (js ''/'') 1000 example_store absent_disk
                  (js ''/x/y.txt'') 0 True = Inr (r, d')
           \<and> (r = RestoredNoBackup (js ''/x/y.txt'') 0 (timestamp (entries ?h ! nat 0))
                  \<and> nodes d' (js ''/x/y.txt'') = Some (File (content (entries ?h ! nat 0)))
                \<or> r = RestoreFailed)
           \<and> (\<forall>p c. p \<noteq> js ''/x/y.txt'' \<and> nodes d' p = Some (File c)
                  \<longrightarrow> nodes absent_disk p = Some (File c))
           \<and> (nodes absent_disk (dirname (js ''/x/y.txt'')) = Some Dir
                  \<and> \<not> write_denied absent_disk (js ''/x/y.txt'')
                \<longrightarrow> r = RestoredNoBackup (js ''/x/y.txt'') 0 (timestamp (entries ?h ! nat 0)))
           \<and> (r = RestoredNoBackup (js ''/x/y.txt'') 0 (timestamp (entries ?h ! nat 0)) \<longleftrightarrow>
                \<not> write_denied absent_disk (js ''/x/y.txt'')
                \<and> (nodes absent_disk (dirname (js ''/x/y.txt'')) = Some Dir
                     \<or> (nodes absent_disk (dirname (js ''/x/y.txt'')) = None
                         \<and> js ''/x/y.txt'' \<noteq> dirname (js ''/x/y.txt'')
                         \<and> (\<forall>q \<in> set (dir_chain (dirname (js ''/x/y.txt''))).
                               nodes absent_disk q = Some Dir
                               \<or> (nodes absent_disk q = None \<and> \<not> write_denied absent_disk q)))))"
    by (rule restoreFromHistory_absent_target[where history = ?h
          and originalPath = "js ''/x/y.txt''" and inputPath = "js ''/x/y.txt''"])
       (simp_all add: example_lookup uriToPath_plain_xy a)
  then obtain r d' where
    r: "restoreFromHistory toLowerCase_ascii (js ''/'') 1000 example_store absent_disk
          (js ''/x/y.txt'') 0 True = Inr (r, d')"
    and f: "\<forall>p c. p \<noteq> js ''/x/y.txt'' \<and> nodes d' p = Some (File c)
              \<longrightarrow> nodes absent_disk p = Some (File c)"
    by auto
  from r absent_restore
  have d': "d' = absent_disk\<lparr>nodes := (nodes absent_disk)(js ''/x/y.txt'' \<mapsto> File (js ''new Foo''))\<rparr>"
    by simp
  have "nodes d' (js ''/x/y.txt.backup.1000'') = None"
    using b by (simp add: d' js_inj)
  with a r absent_restore
  have first: "\<not> existsSync absent_disk (js ''/x/y.txt'')
   \<and> restoreFromHistory toLowerCase_ascii (js ''/'') 1000 example_store absent_disk
         (js ''/x/y.txt'') 0 True
       = Inr (RestoredNoBackup (js ''/x/y.txt'') 0 (Finite 9),
              absent_disk\<lparr>nodes := (nodes absent_disk)(js ''/x/y.txt'' \<mapsto> File (js ''new Foo''))\<rparr>)
   \<and> nodes (absent_disk\<lparr>nodes := (nodes absent_disk)(js ''/x/y.txt'' \<mapsto> File (js ''new Foo''))\<rparr>)
         (js ''/x/y.txt.backup.1000'') = None"
    by (simp add: d')
  have ra: "\<not> existsSync root_disk (js ''/x/y.txt'')"
    by (simp add: existsSync_def root_disk_def js_inj)
  have rx: "\<not> existsSync root_disk (js ''/x'')"
    by (simp add: existsSync_def root_disk_def js_inj)
  have "\<exists>r d'. restoreFromHistory toLowerCase_ascii (js ''/'') 1000 example_store root_disk
                  (js ''/x/y.txt'') 0 True = Inr (r, d')
           \<and> (r = RestoredNoBackup (js ''/x/y.txt'') 0 (timestamp (entries ?h ! nat 0))
                  \<and> nodes d' (js ''/x/y.txt'') = Some (File (content (entries ?h ! nat 0)))
                \<or> r = RestoreFailed)
           \<and> (\<forall>p c. p \<noteq> js ''/x/y.txt'' \<and> nodes d' p = Some (File c)
                  \<longrightarrow> nodes root_disk p = Some (File c))
           \<and> (nodes root_disk (dirname (js ''/x/y.txt'')) = Some Dir
                  \<and> \<not> write_denied root_disk (js ''/x/y.txt'')
                \<longrightarrow> r = RestoredNoBackup (js ''/x/y.txt'') 0 (timestamp (entries ?h ! nat 0)))
           \<and> (r = RestoredNoBackup (js ''/x/y.txt'') 0 (timestamp (entries ?h ! nat 0)) \<longleftrightarrow>
                \<not> write_denied root_disk (js ''/x/y.txt'')
                \<and> (nodes root_disk (dirname (js ''/x/y.txt'')) = Some Dir
                     \<or> (nodes root_disk (dirname (js ''/x/y.txt'')) = None
                         \<and> js ''/x/y.txt'' \<noteq> dirname (js ''/x/y.txt'')
                         \<and> (\<forall>q \<in> set (dir_chain (dirname (js ''/x/y.txt''))).
                               nodes root_disk q = Some Dir
                               \<or> (nodes root_disk q = None \<and> \<not> write_denied root_disk q)))))"
    by (rule restoreFromHistory_absent_target[where history = ?h
          and originalPath = "js ''/x/y.txt''" and inputPath = "js ''/x/y.txt''"])
       (simp_all add: example_lookup uriToPath_plain_xy ra)
  then obtain r2 d2 where
    r2: "restoreFromHistory toLowerCase_ascii (js ''/'') 1000 example_store root_disk
          (js ''/x/y.txt'') 0 True = Inr (r2, d2)"
    and a2: "r2 = RestoredNoBackup (js ''/x/y.txt'') 0 (timestamp (entries ?h ! nat 0))
               \<and> nodes d2 (js ''/x/y.txt'') = Some (File (content (entries ?h ! nat 0)))
             \<or> r2 = RestoreFailed"
    and i2: "r2 = RestoredNoBackup (js ''/x/y.txt'') 0 (timestamp (entries ?h ! nat 0)) \<longleftrightarrow>
                \<not> write_denied root_disk (js ''/x/y.txt'')
                \<and> (nodes root_disk (dirname (js ''/x/y.txt'')) = Some Dir
                     \<or> (nodes root_disk (dirname (js ''/x/y.txt'')) = None
                         \<and> js ''/x/y.txt'' \<noteq> dirname (js ''/x/y.txt'')
                         \<and> (\<forall>q \<in> set (dir_chain (dirname (js ''/x/y.txt''))).
                               nodes root_disk q = Some Dir
                               \<or> (nodes root_disk q = None \<and> \<not> write_denied root_disk q))))"
    by blast
  have "\<not> write_denied root_disk (js ''/x/y.txt'')
        \<and> (nodes root_disk (dirname (js ''/x/y.txt'')) = Some Dir
             \<or> (nodes root_disk (dirname (js ''/x/y.txt'')) = None
                 \<and> js ''/x/y.txt'' \<noteq> dirname (js ''/x/y.txt'')
                 \<and> (\<forall>q \<in> set (dir_chain (dirname (js ''/x/y.txt''))).
                       nodes root_disk q = Some Dir
                       \<or> (nodes root_disk q = None \<and> \<not> write_denied root_disk q))))"
    by (simp add: dirname_xy dir_chain_x root_disk_def js_inj)
  with i2 have s2: "r2 = RestoredNoBackup (js ''/x/y.txt'') 0 (timestamp (entries ?h ! nat 0))"
    by blast
  with a2 have "nodes d2 (js ''/x/y.txt'') = Some (File (content (entries ?h ! nat 0)))"
    by blast
  with r2 s2
  have "\<exists>d'. restoreFromHistory toLowerCase_ascii (js ''/'') 1000 example_store root_disk
                (js ''/x/y.txt'') 0 True
              = Inr (RestoredNoBackup (js ''/x/y.txt'') 0 (Finite 9), d')
            \<and> nodes d' (js ''/x/y.txt'') = Some (File (js ''new Foo''))"
    by simp
  with first ra rx show ?thesis by blast
qed

text \<open>
  C6 as stated fails for two calls that read the same value of \<open>Date.now()\<close>: both use the
  backup path \<open>/x/y.txt.backup.1000\<close>; the second call creates no new file and overwrites
  the backup of the first. It also fails where the target exists as a directory:
  \<open>fs.copyFileSync\<close> throws, the reply is the failure text and nothing is written.
\<close>

theorem restoreFromHistory_backup_collision:
  "restoreFromHistory toLowerCase_ascii (js ''/'') 1000 example_store example_disk
       (js ''/x/y.txt'') 0 True
     = Inr (RestoredWithBackup (js ''/x/y.txt'') 0 (js ''/x/y.txt.backup.1000'') (Finite 9), disk_after_first)
   \<and> restoreFromHistory toLowerCase_ascii (js ''/'') 1000 example_store disk_after_first
       (js ''/x/y.txt'') 1 True
     = Inr (RestoredWithBackup (js ''/x/y.txt'') 1 (js ''/x/y.txt.backup.1000'') (Finite 5), disk_after_second)
   \<and> nodes example_disk (js ''/x/y.txt'') = Some (File (js ''current''))
   \<and> nodes disk_after_first (js ''/x/y.txt.backup.1000'') = Some (File (js ''current''))
   \<and> nodes disk_after_second (js ''/x/y.txt.backup.1000'') = Some (File (js ''new Foo''))
   \<and> existsSync directory_disk (js ''/x/y.txt'')
   \<and> restoreFromHistory toLowerCase_ascii (js ''/'') 1000 example_store directory_disk
       (js ''/x/y.txt'') 0 True
     = Inr (RestoreFailed, directory_disk)"
  using first_restore second_restore directory_restore
  by (simp add: example_disk_def disk_after_first_def disk_after_second_def directory_disk_def
      existsSync_def js_inj)

text \<open>
  C6, amended: with \<open>createBackup\<close> true, a valid index and a target that is a file in an
  existing directory, when the backup path \<open>target.backup.<Date.now()>\<close> and the target can
  be written, the call returns the success reply that names that backup path; afterwards
  the backup holds the content the target had before, the target holds the content of the
  selected entry, and no other path has changed, so the backup is the one new file when
  nothing was at its path. Calls that read different values of \<open>Date.now()\<close> use different
  backup paths for the same target.
\<close>

theorem restoreFromHistory_backup:
  assumes "findHistoryByFilePath toLowerCase cwd st path = Inr (Some history)"
    and "0 \<le> idx" "idx < int (length (entries history))"
    and "uriToPath (originalFilePath history) = Inr originalPath"
    and "uriToPath path = Inr inputPath"
    and tp: "targetPath = (if existsSync d inputPath then inputPath else originalPath)"
    and bp: "backupPath = targetPath @ js ''.backup.'' @ decimal now"
    and old: "nodes d targetPath = Some (File old)"
    and dir: "nodes d (dirname targetPath) = Some Dir"
    and bdir: "nodes d (dirname backupPath) = Some Dir"
    and bnd: "nodes d backupPath \<noteq> Some Dir"
    and wb: "\<not> write_denied d backupPath"
    and wt: "\<not> write_denied d targetPath"
  shows "\<exists>d'. restoreFromHistory toLowerCase cwd now st d path idx True
                = Inr (RestoredWithBackup targetPath idx backupPath
                         (timestamp (entries history ! nat idx)), d')
           \<and> nodes d' targetPath = Some (File (content (entries history ! nat idx)))
           \<and> nodes d' backupPath = Some (File old)
           \<and> (\<forall>p. p \<noteq> targetPath \<and> p \<noteq> backupPath \<longrightarrow> nodes d' p = nodes d p)
           \<and> (\<forall>now'. now' \<noteq> now \<longrightarrow> targetPath @ js ''.backup.'' @ decimal now' \<noteq> backupPath)"
proof -
  let ?e = "entries history ! nat idx"
  let ?d2 = "d\<lparr>nodes := (nodes d)(backupPath \<mapsto> File old)\<rparr>"
  let ?d3 = "?d2\<lparr>nodes := (nodes ?d2)(targetPath \<mapsto> File (content ?e))\<rparr>"
  have ne: "backupPath \<noteq> targetPath"
    unfolding bp by (rule backup_path_differs)
  have nd: "dirname targetPath \<noteq> backupPath"
    using dir bnd by auto
  have m: "(if \<not> existsSync d (dirname targetPath) then mkdirSync_recursive d (dirname targetPath)
            else (True, d)) = (True, d)"
    using dir by (simp add: existsSync_def)
  have c: "copyFileSync d targetPath backupPath = Inr ?d2"
    using old bdir bnd wb by (simp add: copyFileSync_def writeFileSync_returns)
  have w: "writeFileSync ?d2 targetPath (content ?e) = Inr ?d3"
    using old dir wt ne nd by (intro writeFileSync_returns) auto
  have "restore_try now d targetPath ?e idx True
          = (RestoredWithBackup targetPath idx backupPath (timestamp ?e), ?d3)"
    unfolding restore_try_prepared[OF m] bp[symmetric]
    using old c w by (simp add: existsSync_def)
  then have r: "restoreFromHistory toLowerCase cwd now st d path idx True
                  = Inr (RestoredWithBackup targetPath idx backupPath (timestamp ?e), ?d3)"
    unfolding restoreFromHistory_valid_index[OF assms(1-5)] tp[symmetric] by simp
  have i: "targetPath @ js ''.backup.'' @ decimal now' \<noteq> backupPath" if "now' \<noteq> now" for now'
    using that backup_path_inj[of targetPath now' now] unfolding bp by blast
  have "nodes ?d3 targetPath = Some (File (content ?e))" by simp
  moreover have "nodes ?d3 backupPath = Some (File old)" using ne by simp
  moreover have "\<forall>p. p \<noteq> targetPath \<and> p \<noteq> backupPath \<longrightarrow> nodes ?d3 p = nodes d p" by simp
  ultimately show ?thesis using r i by blast
qed

theorem restoreFromHistory_backup_witness:
  "\<exists>d'. restoreFromHistory toLowerCase_ascii (js ''/'') 1000 example_store example_disk
            (js ''/x/y.txt'') 0 True
          = Inr (RestoredWithBackup (js ''/x/y.txt'') 0 (js ''/x/y.txt.backup.1000'') (Finite 9), d')
        \<and> nodes d' (js ''/x/y.txt'') = Some (File (js ''new Foo''))
        \<and> nodes d' (js ''/x/y.txt.backup.1000'') = Some (File (js ''current''))"
proof -
  let ?h = "\<lparr>originalFilePath = js ''/x/y.txt'',
              entries = [\<lparr>timestamp = Finite 9, content = js ''new Foo'',
                           filePath = js ''/h/d1/b'', relativePath = js ''b''\<rparr>,
                         \<lparr>timestamp = Finite 5, content = js ''old foo'',
                           filePath = js ''/h/d1/a'', relativePath = js ''a''\<rparr>]\<rparr>"
  have b: "js ''/x/y.txt.backup.1000'' = js ''/x/y.txt'' @ js ''.backup.'' @ decimal 1000"
    by (simp add: decimal_1000 js_append del: decimal.simps)
  have "\<exists>d'. restoreFromHistory toLowerCase_ascii (js ''/'') 1000 example_store example_disk
                (js ''/x/y.txt'') 0 True
              = Inr (RestoredWithBackup (js ''/x/y.txt'') 0 (js ''/x/y.txt.backup.1000'')
                       (timestamp (entries ?h ! nat 0)), d')
           \<and> nodes d' (js ''/x/y.txt'') = Some (File (content (entries ?h ! nat 0)))
           \<and> nodes d' (js ''/x/y.txt.backup.1000'') = Some (File (js ''current''))
           \<and> (\<forall>p. p \<noteq> js ''/x/y.txt'' \<and> p \<noteq> js ''/x/y.txt.backup.1000''
                  \<longrightarrow> nodes d' p = nodes example_disk p)
           \<and> (\<forall>now'. now' \<noteq> 1000
                  \<longrightarrow> js ''/x/y.txt'' @ js ''.backup.'' @ decimal now' \<noteq> js ''/x/y.txt.backup.1000'')"
    by (rule restoreFromHistory_backup[where history = ?h
          and originalPath = "js ''/x/y.txt''" and inputPath = "js ''/x/y.txt''"])
       (simp_all add: example_lookup uriToPath_plain_xy b[symmetric] dirname_xy dirname_backup
          existsSync_def example_disk_def js_inj del: decimal.simps)
  then show ?thesis by auto
qed

section \<open>Properties of the search engine\<close>

lemma escape_class_syntax: "escape_class c \<longleftrightarrow> syntax_character c"
  by (auto simp: escape_class_def syntax_character_def js_def)

lemma syntax_character_backslash: "syntax_character backslash"
  by (simp add: syntax_character_def)

lemma parse_escaped: "parse_pattern (escapeRegExp t) = Some (map Literal t)"
proof (induction t)
  case Nil
  then show ?case by (simp add: escapeRegExp_def)
next
  case (Cons c t)
  have e: "escapeRegExp (c # t) = (if escape_class c then [backslash, c] else [c]) @ escapeRegExp t"
    by (simp add: escapeRegExp_def)
  show ?case
  proof (cases "syntax_character c")
    case True
    then show ?thesis
      using Cons by (simp add: e escape_class_syntax)
  next
    case False
    then have "c \<noteq> backslash" using syntax_character_backslash by auto
    with False show ?thesis
      using Cons by (simp add: e escape_class_syntax)
  qed
qed

lemma term_at_Nil: "term_at canon ic [] s"
  by (simp add: term_at_def)

lemma term_at_Cons:
  "term_at canon ic (a # t) s \<longleftrightarrow>
     (case s of [] \<Rightarrow> False
      | c # cs \<Rightarrow> canonicalize canon ic c = canonicalize canon ic a \<and> term_at canon ic t cs)"
  by (cases s) (auto simp: term_at_def)

lemma match_atoms_literal:
  "i \<le> length s \<Longrightarrow>
   match_atoms canon ic (map Literal t) s i
     = (if term_at canon ic t (drop i s) then Some (i + length t) else None)"
proof (induction t arbitrary: i)
  case Nil
  then show ?case by (simp add: term_at_Nil)
next
  case (Cons a t)
  show ?case
  proof (cases "i < length s")
    case True
    then have d: "drop i s = s ! i # drop (Suc i) s"
      by (simp add: Cons_nth_drop_Suc)
    from True have "Suc i \<le> length s" by simp
    from Cons.IH[OF this] True show ?thesis
      by (simp add: term_at_Cons d)
  next
    case False
    with Cons.prems have "drop i s = []" by simp
    with False show ?thesis by (simp add: term_at_Cons)
  qed
qed

lemma regexp_exec_step:
  "i \<le> length s \<Longrightarrow>
   regexp_exec canon ic (map Literal t) s i
     = (if term_at canon ic t (drop i s) then Some (i, i + length t)
        else regexp_exec canon ic (map Literal t) s (Suc i))"
  by (subst regexp_exec.simps) (simp add: match_atoms_literal)

lemma regexp_exec_past: "length s < i \<Longrightarrow> regexp_exec canon ic as s i = None"
  by (subst regexp_exec.simps) simp

lemma regexp_exec_contains:
  "i \<le> length s \<Longrightarrow>
   regexp_exec canon ic (map Literal t) s i \<noteq> None \<longleftrightarrow> contains_term canon ic t (drop i s)"
proof (induction "length s - i" arbitrary: i)
  case 0
  then have i: "i = length s" by simp
  then show ?case
    by (simp add: regexp_exec_step regexp_exec_past)
next
  case (Suc n)
  then have lt: "i < length s" and n: "n = length s - Suc i" by simp_all
  then have d: "drop i s = s ! i # drop (Suc i) s"
    by (simp add: Cons_nth_drop_Suc)
  from lt have le: "Suc i \<le> length s" by simp
  from Suc.hyps(1)[OF n le] lt show ?case
    by (simp add: regexp_exec_step d)
qed

lemma match_all_step:
  "match_all canon ic as s i =
     (case regexp_exec canon ic as s i of
        None \<Rightarrow> []
      | Some (j, e) \<Rightarrow> (j, e) # match_all canon ic as s (if e = j then Suc e else e))"
  by (subst match_all.simps) simp

lemma match_all_contains:
  "match_all canon ic (map Literal t) s 0 \<noteq> [] \<longleftrightarrow> contains_term canon ic t s"
  using regexp_exec_contains[of 0 s canon ic t]
  by (subst match_all_step) (auto split: option.splits)

lemma match_all_count:
  "i \<le> length s \<Longrightarrow>
   length (match_all canon ic (map Literal t) s i) = count_occurrences canon ic t (drop i s)"
proof (induction "length s - i" arbitrary: i rule: less_induct)
  case less
  show ?case
  proof (cases "term_at canon ic t (drop i s)")
    case True
    then have ex: "regexp_exec canon ic (map Literal t) s i = Some (i, i + length t)"
      using less.prems by (simp add: regexp_exec_step)
    show ?thesis
    proof (cases "i < length s")
      case False
      with less.prems have i: "i = length s" by simp
      with True have t: "t = []" by (simp add: term_at_def)
      have "match_all canon ic (map Literal t) s (Suc i) = []"
        by (subst match_all_step) (simp add: regexp_exec_past i)
      then show ?thesis
        using ex t i by (subst match_all_step) simp
    next
      case lt: True
      then have d: "drop i s = s ! i # drop (Suc i) s"
        by (simp add: Cons_nth_drop_Suc)
      define next_index where "next_index = (if i + length t = i then Suc (i + length t) else i + length t)"
      have nx: "next_index = Suc i + (length t - 1)"
        by (auto simp: next_index_def)
      have le: "next_index \<le> length s"
        using True lt by (auto simp: nx term_at_def)
      have "length s - next_index < length s - i"
        using lt nx by simp
      from less.hyps[OF this le]
      have ih: "length (match_all canon ic (map Literal t) s next_index)
                = count_occurrences canon ic t (drop next_index s)" .
      have "length (match_all canon ic (map Literal t) s i)
            = Suc (length (match_all canon ic (map Literal t) s next_index))"
        using ex by (subst match_all_step) (simp add: next_index_def)
      also have "\<dots> = Suc (count_occurrences canon ic t (drop (length t - 1) (drop (Suc i) s)))"
      proof -
        have "drop (length t - 1) (drop (Suc i) s) = drop next_index s"
          by (simp add: nx add.commute)
        then show ?thesis by (simp only: ih)
      qed
      also have "\<dots> = count_occurrences canon ic t (drop i s)"
        using True by (simp add: d)
      finally show ?thesis .
    qed
  next
    case False
    then have ex: "regexp_exec canon ic (map Literal t) s i
                   = regexp_exec canon ic (map Literal t) s (Suc i)"
      using less.prems by (simp add: regexp_exec_step)
    have m: "match_all canon ic (map Literal t) s i = match_all canon ic (map Literal t) s (Suc i)"
      by (subst match_all_step, subst (2) match_all_step) (simp add: ex)
    show ?thesis
    proof (cases "i < length s")
      case lt: True
      then have d: "drop i s = s ! i # drop (Suc i) s"
        by (simp add: Cons_nth_drop_Suc)
      have "length s - Suc i < length s - i" using lt by simp
      from less.hyps[OF this] lt
      have "length (match_all canon ic (map Literal t) s (Suc i))
            = count_occurrences canon ic t (drop (Suc i) s)" by simp
      then show ?thesis
        using False by (simp add: m d)
    next
      case ge: False
      with less.prems have i: "i = length s" by simp
      with False have t: "t \<noteq> []" by (auto simp: term_at_def)
      have "match_all canon ic (map Literal t) s (Suc i) = []"
        by (subst match_all_step) (simp add: regexp_exec_past i)
      with m have "match_all canon ic (map Literal t) s i = []" by simp
      then show ?thesis
        using t by (simp add: i)
    qed
  qed
qed


lemma search_entries_literal:
  "search_entries canon ic (map Literal t) f k es =
     concat (map (\<lambda>(i, e).
        if contains_term canon ic t (content e)
        then [\<lparr>resultFile = f, entryIndex = i, entryTimestamp = timestamp e,
               matchCount = count_occurrences canon ic t (content e)\<rparr>]
        else []) (enumerate k es))"
proof (induction es arbitrary: k)
  case Nil
  then show ?case by simp
next
  case (Cons e es)
  have c: "length (match_all canon ic (map Literal t) (content e) 0)
           = count_occurrences canon ic t (content e)"
    using match_all_count[of 0 "content e" canon ic t] by simp
  show ?case
    by (simp add: Cons.IH Let_def match_all_contains c)
qed

lemma contains_term_iff:
  "contains_term canon ic t s \<longleftrightarrow>
     (\<exists>u w v. s = u @ w @ v \<and> map (canonicalize canon ic) w = map (canonicalize canon ic) t)"
proof
  assume "contains_term canon ic t s"
  then show "\<exists>u w v. s = u @ w @ v \<and> map (canonicalize canon ic) w = map (canonicalize canon ic) t"
  proof (induction s)
    case Nil
    then have "t = []" by (simp add: term_at_def)
    then show ?case by simp
  next
    case (Cons c cs)
    show ?case
    proof (cases "term_at canon ic t (c # cs)")
      case True
      then have "c # cs = [] @ take (length t) (c # cs) @ drop (length t) (c # cs)"
        and "map (canonicalize canon ic) (take (length t) (c # cs)) = map (canonicalize canon ic) t"
        by (simp_all add: term_at_def)
      then show ?thesis by blast
    next
      case False
      with Cons.prems have "contains_term canon ic t cs" by simp
      from Cons.IH[OF this] obtain u w v where
        "cs = u @ w @ v" "map (canonicalize canon ic) w = map (canonicalize canon ic) t"
        by blast
      then have "c # cs = (c # u) @ w @ v \<and> map (canonicalize canon ic) w = map (canonicalize canon ic) t"
        by simp
      then show ?thesis by blast
    qed
  qed
next
  assume "\<exists>u w v. s = u @ w @ v \<and> map (canonicalize canon ic) w = map (canonicalize canon ic) t"
  then obtain u w v where s: "s = u @ w @ v"
    and w: "map (canonicalize canon ic) w = map (canonicalize canon ic) t"
    by blast
  from w have l: "length w = length t" by (rule map_eq_imp_length_eq)
  have a: "term_at canon ic t (w @ v)"
    using w l by (simp add: term_at_def)
  have "contains_term canon ic t (u @ w @ v)"
  proof (induction u)
    case Nil
    from a show ?case by (cases "w @ v") simp_all
  next
    case (Cons c u)
    then show ?case by simp
  qed
  then show "contains_term canon ic t s" by (simp add: s)
qed

text \<open>
  C7: for every search term and store, the result list of \<open>searchHistoryContent\<close> is made
  as follows: the histories in the order of \<open>getAllFileHistories\<close>, the entries of each in
  their order, one record for each entry whose content contains the term, with the file,
  the index of the entry in \<open>entries\<close>, its timestamp and the number of occurrences of the
  term counted from left to right without overlap. An entry contains the term when the
  content is \<open>u @ w @ v\<close> with \<open>w\<close> equal to the term code unit by code unit, after
  \<open>Canonicalize\<close> when \<open>caseSensitive\<close> is false and as it is when \<open>caseSensitive\<close> is true. No
  character of the term acts as an operator: the pattern built from it always parses to
  the literal characters of the term.
\<close>

theorem searchHistoryContent_literal:
  "searchHistoryContent canon st t caseSensitive =
     Some (concat (map (\<lambda>h. concat (map (\<lambda>(i, e).
             if contains_term canon (\<not> caseSensitive) t (content e)
             then [\<lparr>resultFile = originalFilePath h, entryIndex = i,
                    entryTimestamp = timestamp e,
                    matchCount = count_occurrences canon (\<not> caseSensitive) t (content e)\<rparr>]
             else []) (enumerate 0 (entries h)))) (getAllFileHistories st)))
   \<and> parse_pattern (escapeRegExp t) = Some (map Literal t)
   \<and> (contains_term canon (\<not> caseSensitive) t s \<longleftrightarrow>
        (\<exists>u w v. s = u @ w @ v
           \<and> map (canonicalize canon (\<not> caseSensitive)) w
               = map (canonicalize canon (\<not> caseSensitive)) t))
   \<and> (contains_term canon False t s \<longleftrightarrow> (\<exists>u v. s = u @ t @ v))
   \<and> (0 < count_occurrences canon (\<not> caseSensitive) t s
        \<longleftrightarrow> contains_term canon (\<not> caseSensitive) t s)"
proof -
  have a: "searchHistoryContent canon st t caseSensitive =
     Some (concat (map (\<lambda>h. concat (map (\<lambda>(i, e).
             if contains_term canon (\<not> caseSensitive) t (content e)
             then [\<lparr>resultFile = originalFilePath h, entryIndex = i,
                    entryTimestamp = timestamp e,
                    matchCount = count_occurrences canon (\<not> caseSensitive) t (content e)\<rparr>]
             else []) (enumerate 0 (entries h)))) (getAllFileHistories st)))"
    by (simp add: searchHistoryContent_def parse_escaped search_entries_literal)
  have "canonicalize canon False = (\<lambda>c. c)"
    by (simp add: canonicalize_def fun_eq_iff)
  then have b: "contains_term canon False t s \<longleftrightarrow> (\<exists>u v. s = u @ t @ v)"
    by (auto simp: contains_term_iff)
  have c: "0 < count_occurrences canon (\<not> caseSensitive) t s
           \<longleftrightarrow> contains_term canon (\<not> caseSensitive) t s"
    using match_all_count[of 0 s canon "\<not> caseSensitive" t]
      match_all_contains[of canon "\<not> caseSensitive" t s]
    by (cases "match_all canon (\<not> caseSensitive) (map Literal t) s 0") auto
  from a b c parse_escaped contains_term_iff show ?thesis by blast
qed

lemma contains_foo:
  "contains_term canon_ascii True (js ''foo'') (js ''new Foo'')"
  "contains_term canon_ascii True (js ''foo'') (js ''old foo'')"
  "\<not> contains_term canon_ascii False (js ''foo'') (js ''new Foo'')"
  "contains_term canon_ascii False (js ''foo'') (js ''old foo'')"
  "\<not> contains_term canon_ascii True (js ''f.o'') (js ''new Foo'')"
  "\<not> contains_term canon_ascii True (js ''f.o'') (js ''old foo'')"
  by (simp_all add: js_def term_at_def canonicalize_def canon_ascii_def)

lemma count_foo:
  "count_occurrences canon_ascii True (js ''foo'') (js ''new Foo'') = 1"
  "count_occurrences canon_ascii True (js ''foo'') (js ''old foo'') = 1"
  "count_occurrences canon_ascii False (js ''foo'') (js ''old foo'') = 1"
  by (simp_all add: js_def term_at_def canonicalize_def canon_ascii_def)

theorem searchHistoryContent_literal_witness:
  "searchHistoryContent canon_ascii example_store (js ''foo'') False =
     Some [\<lparr>resultFile = js ''/x/y.txt'', entryIndex = 0, entryTimestamp = Finite 9, matchCount = 1\<rparr>,
           \<lparr>resultFile = js ''/x/y.txt'', entryIndex = 1, entryTimestamp = Finite 5, matchCount = 1\<rparr>]
   \<and> searchHistoryContent canon_ascii example_store (js ''foo'') True =
     Some [\<lparr>resultFile = js ''/x/y.txt'', entryIndex = 1, entryTimestamp = Finite 5, matchCount = 1\<rparr>]
   \<and> searchHistoryContent canon_ascii example_store (js ''f.o'') False = Some []"
  using searchHistoryContent_literal[of canon_ascii example_store "js ''foo''" False]
    searchHistoryContent_literal[of canon_ascii example_store "js ''foo''" True]
    searchHistoryContent_literal[of canon_ascii example_store "js ''f.o''" False]
  by (simp add: example_histories contains_foo count_foo)

end
